theory Spec2Isabelle
  imports Main "HOL-Library.Word" "HOL-Library.AList"
begin

unbundle bit_operations_syntax

section \<open>Byte sequences, errors and the CommitID record\<close>

text \<open>
  A Go \<open>[]byte\<close> and a Go \<open>string\<close> are both sequences of bytes; \<open>string(prefix)\<close>
  and \<open>[]byte(prefix)\<close> keep the content, so both are lists of 8-bit words here.
  Where the source tests a slice or a pointer against \<open>nil\<close> the value is an
  \<open>option\<close> and \<open>None\<close> is \<open>nil\<close>. \<open>int64\<close> is a 64-bit word.
\<close>

type_synonym byte = "8 word"
type_synonym bytes = "byte list"
type_synonym int64 = "64 word"

datatype error =
    ErrIntOverflow
  | ErrUnexpectedEOF
  | ErrInvalidLength
  | ErrWrongWireType
  | ErrIllegalTag
  | ErrUnknownField
  | ErrCacheSize
  | ErrVersionNotFound
  | ErrStoreWrite
  | PanicNilValue
  | PanicNilPointer
  | Errorf string error

record CommitID =
  Version :: int64
  Hash :: bytes

definition new_CommitID :: CommitID where
  "new_CommitID = \<lparr>Version = 0, Hash = []\<rparr>"

section \<open>CommitID serialisation\<close>

text \<open>
  Modelled from the spec: the message declaration of CommitID and its generated
  codec are not among the sources; forest.go only calls them through
  \<open>proto.Buffer\<close>. The spec gives CommitID as \<open>{version: int64, hash: bytes}\<close> with a
  compact, deterministic binary form whose zero value is structurally empty. The
  model is the protocol-buffers wire format for that message: field 1 is the
  version as a base-128 varint (tag byte 0x08), field 2 is the hash, length
  delimited (tag byte 0x12), and a field holding its zero value is left out.
  Decoding reads fields until the input ends, a later occurrence of a field
  replacing an earlier one; malformed input is an error. Fields other than the
  two declared ones are reported as \<open>ErrUnknownField\<close>.
\<close>

function EncodeVarint :: "int64 \<Rightarrow> bytes" where
  "EncodeVarint x =
     (if x < 0x80 then [ucast x]
      else (ucast (x AND 0x7F) OR 0x80) # EncodeVarint (drop_bit 7 x))"
  by pat_completeness auto
termination
proof (relation "measure unat")
  show "wf (measure unat)" by simp
next
  fix x :: int64
  assume "\<not> x < 0x80"
  then have "0 < unat x" by (simp add: word_less_nat_alt not_less)
  then have "unat x div 128 < unat x" by simp
  then show "(drop_bit 7 x, x) \<in> measure unat"
    by (simp add: drop_bit_eq_div unat_div)
qed

declare EncodeVarint.simps [simp del]

text \<open>
  The decoder's loop over the bytes of one varint: \<open>shift\<close> is the bit position of
  the next group and \<open>x\<close> the value read so far. As in the Go loop, an eleventh
  byte is an overflow, and bits shifted beyond bit 63 are lost.
\<close>

fun DecodeVarint_from :: "nat \<Rightarrow> int64 \<Rightarrow> bytes \<Rightarrow> error + (int64 \<times> bytes)" where
  "DecodeVarint_from shift x [] =
     (if 64 \<le> shift then Inl ErrIntOverflow else Inl ErrUnexpectedEOF)"
| "DecodeVarint_from shift x (b # bs) =
     (if 64 \<le> shift then Inl ErrIntOverflow
      else let x' = x OR push_bit shift (ucast (b AND 0x7F)) in
        if b < 0x80 then Inr (x', bs) else DecodeVarint_from (shift + 7) x' bs)"

definition DecodeVarint :: "bytes \<Rightarrow> error + (int64 \<times> bytes)" where
  "DecodeVarint bs = DecodeVarint_from 0 0 bs"

definition encode_CommitID :: "CommitID \<Rightarrow> bytes" where
  "encode_CommitID cid =
     (if Version cid \<noteq> 0 then 0x08 # EncodeVarint (Version cid) else []) @
     (if 0 < length (Hash cid)
      then 0x12 # EncodeVarint (of_nat (length (Hash cid))) @ Hash cid else [])"

lemma DecodeVarint_from_shorter:
  "DecodeVarint_from shift x bs = Inr (v, rest) \<Longrightarrow> length rest < length bs"
  by (induction shift x bs rule: DecodeVarint_from.induct)
     (auto simp: Let_def split: if_splits)

lemma DecodeVarint_shorter:
  "DecodeVarint bs = Inr (v, rest) \<Longrightarrow> length rest < length bs"
  unfolding DecodeVarint_def by (rule DecodeVarint_from_shorter)

function decode_fields :: "CommitID \<Rightarrow> bytes \<Rightarrow> error + CommitID" where
  "decode_fields m [] = Inr m"
| "decode_fields m (b # bs) =
     (case DecodeVarint (b # bs) of
        Inl e \<Rightarrow> Inl e
      | Inr (wire, rest) \<Rightarrow>
          let fieldNum = drop_bit 3 wire; wireType = wire AND 7 in
          if fieldNum = 0 then Inl ErrIllegalTag
          else if fieldNum = 1 then
            (if wireType \<noteq> 0 then Inl ErrWrongWireType
             else case DecodeVarint rest of
                 Inl e \<Rightarrow> Inl e
               | Inr (v, rest') \<Rightarrow> decode_fields (m\<lparr>Version := v\<rparr>) rest')
          else if fieldNum = 2 then
            (if wireType \<noteq> 2 then Inl ErrWrongWireType
             else case DecodeVarint rest of
                 Inl e \<Rightarrow> Inl e
               | Inr (n, rest') \<Rightarrow>
                   if 2 ^ 63 \<le> unat n then Inl ErrInvalidLength
                   else if length rest' < unat n then Inl ErrUnexpectedEOF
                   else decode_fields (m\<lparr>Hash := take (unat n) rest'\<rparr>)
                          (drop (unat n) rest'))
          else Inl ErrUnknownField)"
  by pat_completeness auto
termination
  by (relation "measure (\<lambda>(m, bs). length bs)")
     (auto dest!: DecodeVarint_shorter)

declare decode_fields.simps(2) [simp del]

text \<open>
  \<open>CommitID.MarshalBinary\<close> (lines 317-324) marshals into \<open>proto.NewBuffer(nil)\<close> and
  returns the buffer's bytes: when nothing was written the buffer is still the
  \<open>nil\<close> it started as. The codec has no failing case for this message; the
  error branch of the source is kept in the callers.
\<close>

definition MarshalBinary :: "CommitID \<Rightarrow> error + bytes option" where
  "MarshalBinary cid =
     (let buf = encode_CommitID cid in Inr (if buf = [] then None else Some buf))"

text \<open>\<open>CommitID.UnmarshalBinary\<close> (lines 312-315) decodes into the receiver.\<close>

definition UnmarshalBinary :: "CommitID \<Rightarrow> bytes \<Rightarrow> error + CommitID" where
  "UnmarshalBinary cid data = decode_fields cid data"

text \<open>\<open>marshalCommitID\<close> (lines 330-344).\<close>

definition marshalCommitID :: "bytes \<Rightarrow> int64 \<Rightarrow> error + bytes option" where
  "marshalCommitID hash version =
     (let commitID = \<lparr>Version = version, Hash = hash\<rparr> in
      case MarshalBinary commitID of
        Inl err \<Rightarrow> Inl (Errorf ''MarshalCommitID() could not encode CommitID'' err)
      | Inr bs \<Rightarrow> (if bs = None then Inr (Some []) else Inr bs))"

text \<open>\<open>unmarshalCommitID\<close> (lines 346-353).\<close>

definition unmarshalCommitID :: "bytes \<Rightarrow> error + CommitID" where
  "unmarshalCommitID bs =
     (case UnmarshalBinary new_CommitID bs of
        Inl err \<Rightarrow> Inl (Errorf ''could not unmarshal CommitID'' err)
      | Inr commitID \<Rightarrow> Inr commitID)"


section \<open>The versioned tree and the backing store\<close>

text \<open>
  \<open>NewPrefixDB(db, prefix)\<close> is a view of \<open>db\<close> whose keys live under \<open>prefix\<close>; the
  view is identified by the store it was made from and its tag.
\<close>

datatype DB = BaseDB | PrefixDB DB bytes

type_synonym kv = "(bytes \<times> bytes) list"

datatype tree_write = WSet bytes bytes | WRemove bytes

fun apply_write :: "kv \<Rightarrow> tree_write \<Rightarrow> kv" where
  "apply_write c (WSet k v) = AList.update k v c"
| "apply_write c (WRemove k) = AList.delete k c"

text \<open>
  Modelled from the spec: RWTree (storage/rwtree.go) is not among the sources.
  Its operations are those of the collaborator contract (Get, Set, Delete, Load,
  Save, GetImmutable, Updated, Hash, Version). As the comment on MutableForest
  in forest.go (lines 26-31) describes it, an RWTree routes writes to a working
  tree and reads to the last saved tree, so that new writes are only available
  to read after a save. An instance therefore holds the store view it is bound
  to, its version, the content of the last saved (or loaded) tree, and the
  writes buffered since, oldest first. \<open>Updated\<close> says whether buffered writes
  exist.
\<close>

record RWTree =
  tree_db :: DB
  tree_version :: int64
  saved :: kv
  pending :: "tree_write list"

definition working :: "RWTree \<Rightarrow> kv" where
  "working t = foldl apply_write (saved t) (pending t)"

text \<open>
  Tree instances are shared by pointer (the dirty map, the tree cache and the
  caller hold the same \<open>*RWTree\<close>), so they live in a heap indexed by address;
  \<open>fresh\<close> is the next unused address. \<open>versions\<close> is what the backing store
  holds: for each store view the content saved at each version. \<open>loads\<close> records
  every \<open>Load\<close> made on a tree (view, version, overwriting), oldest first. Two
  things are given by the environment: the Merkle hash of a tree's content
  (\<open>digest\<close>) and the store views on which persisting fails (\<open>unwritable\<close>).
\<close>

record world =
  heap :: "nat \<Rightarrow> RWTree"
  fresh :: nat
  versions :: "DB \<Rightarrow> int64 \<Rightarrow> kv option"
  loads :: "(DB \<times> int64 \<times> bool) list"
  unwritable :: "DB \<Rightarrow> bool"
  digest :: "kv \<Rightarrow> bytes"

definition NewRWTree :: "DB \<Rightarrow> int \<Rightarrow> world \<Rightarrow> (error + nat) \<times> world" where
  "NewRWTree db cacheSize w =
     (Inr (fresh w),
      w\<lparr>heap := (heap w)(fresh w :=
           \<lparr>tree_db = db, tree_version = 0, saved = [], pending = []\<rparr>),
        fresh := Suc (fresh w)\<rparr>)"

definition rw_Get :: "nat \<Rightarrow> bytes \<Rightarrow> world \<Rightarrow> bytes option" where
  "rw_Get r key w = map_of (saved (heap w r)) key"

text \<open>
  Storing a \<open>nil\<close> value panics (the reason \<open>marshalCommitID\<close> gives for
  normalising its result, line 340).
\<close>

definition rw_Set :: "nat \<Rightarrow> bytes \<Rightarrow> bytes option \<Rightarrow> world \<Rightarrow> error option \<times> world" where
  "rw_Set r key val w =
     (case val of
        None \<Rightarrow> (Some PanicNilValue, w)
      | Some v \<Rightarrow>
          (None, w\<lparr>heap := (heap w)(r :=
             (heap w r)\<lparr>pending := pending (heap w r) @ [WSet key v]\<rparr>)\<rparr>))"

definition rw_Delete :: "nat \<Rightarrow> bytes \<Rightarrow> world \<Rightarrow> (bytes option \<times> bool) \<times> world" where
  "rw_Delete r key w =
     (let old = map_of (working (heap w r)) key in
      ((old, old \<noteq> None),
       w\<lparr>heap := (heap w)(r :=
          (heap w r)\<lparr>pending := pending (heap w r) @ [WRemove key]\<rparr>)\<rparr>))"

definition rw_Updated :: "nat \<Rightarrow> world \<Rightarrow> bool" where
  "rw_Updated r w = (pending (heap w r) \<noteq> [])"

definition rw_Version :: "nat \<Rightarrow> world \<Rightarrow> int64" where
  "rw_Version r w = tree_version (heap w r)"

definition rw_Hash :: "nat \<Rightarrow> world \<Rightarrow> bytes" where
  "rw_Hash r w = digest w (saved (heap w r))"

definition rw_Save :: "nat \<Rightarrow> world \<Rightarrow> (error + bytes \<times> int64) \<times> world" where
  "rw_Save r w =
     (let t = heap w r in
      if unwritable w (tree_db t) then (Inl ErrStoreWrite, w)
      else
        let content = working t; version = tree_version t + 1 in
        (Inr (digest w content, version),
         w\<lparr>heap := (heap w)(r :=
              t\<lparr>tree_version := version, saved := content, pending := []\<rparr>),
           versions := (versions w)(tree_db t :=
              (versions w (tree_db t))(version \<mapsto> content))\<rparr>))"

text \<open>
  \<open>Load\<close> attaches the instance to a stored version and fails when the store
  does not hold it; an overwriting load discards the later versions of the
  view.
\<close>

definition rw_Load :: "nat \<Rightarrow> int64 \<Rightarrow> bool \<Rightarrow> world \<Rightarrow> error option \<times> world" where
  "rw_Load r version overwriting w =
     (let t = heap w r;
          w1 = w\<lparr>loads := loads w @ [(tree_db t, version, overwriting)]\<rparr> in
      case versions w (tree_db t) version of
        None \<Rightarrow> (Some ErrVersionNotFound, w1)
      | Some content \<Rightarrow>
          (None,
           w1\<lparr>heap := (heap w)(r :=
                t\<lparr>tree_version := version, saved := content, pending := []\<rparr>),
              versions :=
                (if overwriting
                 then (versions w)(tree_db t :=
                        (\<lambda>n. if version <s n then None else versions w (tree_db t) n))
                 else versions w)\<rparr>))"

definition rw_GetImmutable :: "nat \<Rightarrow> int64 \<Rightarrow> world \<Rightarrow> error + kv" where
  "rw_GetImmutable r version w =
     (case versions w (tree_db (heap w r)) version of
        None \<Rightarrow> Inl ErrVersionNotFound
      | Some content \<Rightarrow> Inr content)"

text \<open>
  The read interface held by an ImmutableForest as its commits tree: the live
  RWTree of a MutableForest, or a read-only snapshot.
\<close>

datatype KVCallbackIterableReader = RWTreeReader nat | ImmutableTreeReader kv

definition reader_Get :: "KVCallbackIterableReader \<Rightarrow> bytes \<Rightarrow> world \<Rightarrow> bytes option" where
  "reader_Get rd key w =
     (case rd of
        RWTreeReader r \<Rightarrow> rw_Get r key w
      | ImmutableTreeReader content \<Rightarrow> map_of content key)"

section \<open>The tree cache\<close>

text \<open>
  \<open>lru.Cache\<close> (hashicorp/golang-lru) as its documentation describes it: a
  cache of fixed size, most recently used entry first. \<open>New\<close> refuses a size that
  is not positive, \<open>Get\<close> moves a hit to the front, \<open>Add\<close> puts the entry at the
  front and evicts the oldest one when the size is exceeded.
\<close>

record Cache =
  cache_size :: nat
  items :: "(bytes \<times> nat) list"

definition lru_New :: "int \<Rightarrow> error + Cache" where
  "lru_New n = (if n \<le> 0 then Inl ErrCacheSize
                else Inr \<lparr>cache_size = nat n, items = []\<rparr>)"

definition lru_Get :: "Cache \<Rightarrow> bytes \<Rightarrow> nat option \<times> Cache" where
  "lru_Get c key =
     (case map_of (items c) key of
        None \<Rightarrow> (None, c)
      | Some v \<Rightarrow> (Some v, c\<lparr>items := (key, v) # AList.delete key (items c)\<rparr>))"

definition lru_Add :: "Cache \<Rightarrow> bytes \<Rightarrow> nat \<Rightarrow> Cache" where
  "lru_Add c key v =
     (let moved = (key, v) # AList.delete key (items c) in
      c\<lparr>items := (if cache_size c < length moved then butlast moved else moved)\<rparr>)"

section \<open>ImmutableForest and MutableForest\<close>

definition commitsPrefix :: bytes where
  "commitsPrefix = [0x63]"

definition treePrefix :: bytes where
  "treePrefix = [0x74]"

record ImmutableForest =
  commitsTree :: KVCallbackIterableReader
  treeDB :: DB
  treeCache :: Cache
  cacheSize :: int
  overwriting :: bool

text \<open>
  MutableForest (lines 64-74); \<open>forest\<close> is the embedded \<open>*ImmutableForest\<close>, and
  \<open>mcommitsTree\<close> the field \<open>commitsTree\<close> of the MutableForest itself.
\<close>

record MutableForest =
  mcommitsTree :: nat
  forest :: ImmutableForest
  dirty :: "bytes \<rightharpoonup> nat"
  dirtyPrefixes :: "bytes list"

type_synonym ForestOption = "ImmutableForest \<Rightarrow> ImmutableForest"

definition WithOverwriting :: ForestOption where
  "WithOverwriting imf = imf\<lparr>overwriting := True\<rparr>"

definition NewImmutableForest ::
    "KVCallbackIterableReader \<Rightarrow> DB \<Rightarrow> int \<Rightarrow> ForestOption list \<Rightarrow> error + ImmutableForest" where
  "NewImmutableForest commitsTree' treeDB' cacheSize' options =
     (case lru_New cacheSize' of
        Inl err \<Rightarrow> Inl (Errorf ''NewImmutableForest() could not create cache'' err)
      | Inr cache \<Rightarrow>
          Inr (fold (\<lambda>opt imf. opt imf) options
                 \<lparr>commitsTree = commitsTree', treeDB = treeDB', treeCache = cache,
                  cacheSize = cacheSize', overwriting = False\<rparr>))"

definition NewMutableForest :: "DB \<Rightarrow> int \<Rightarrow> world \<Rightarrow> (error + MutableForest) \<times> world" where
  "NewMutableForest db cacheSize' w =
     (case NewRWTree (PrefixDB db commitsPrefix) cacheSize' w of
        (Inl err, w1) \<Rightarrow> (Inl err, w1)
      | (Inr commitsTree', w1) \<Rightarrow>
          (case NewImmutableForest (RWTreeReader commitsTree') (PrefixDB db treePrefix)
                  cacheSize' [WithOverwriting] of
             Inl err \<Rightarrow> (Inl err, w1)
           | Inr forest' \<Rightarrow>
               (Inr \<lparr>mcommitsTree = commitsTree', forest = forest',
                     dirty = Map.empty, dirtyPrefixes = []\<rparr>, w1)))"

text \<open>\<open>ImmutableForest.newTree\<close> (lines 300-308).\<close>

definition newTree ::
    "ImmutableForest \<Rightarrow> bytes \<Rightarrow> world \<Rightarrow> (error + nat) \<times> ImmutableForest \<times> world" where
  "newTree imf prefix w =
     (case NewRWTree (PrefixDB (treeDB imf) prefix) (cacheSize imf) w of
        (Inl err, w1) \<Rightarrow> (Inl err, imf, w1)
      | (Inr tree', w1) \<Rightarrow>
          (Inr tree', imf\<lparr>treeCache := lru_Add (treeCache imf) prefix tree'\<rparr>, w1))"

text \<open>\<open>ImmutableForest.commitID\<close> (lines 266-276).\<close>

definition commitID :: "ImmutableForest \<Rightarrow> bytes \<Rightarrow> world \<Rightarrow> error + CommitID" where
  "commitID imf prefix w =
     (case reader_Get (commitsTree imf) prefix w of
        None \<Rightarrow> Inr new_CommitID
      | Some bs \<Rightarrow>
          (case unmarshalCommitID bs of
             Inl err \<Rightarrow> Inl (Errorf ''could not get commitID for prefix'' err)
           | Inr commitID' \<Rightarrow> Inr commitID'))"

text \<open>\<open>ImmutableForest.loadOrCreateTree\<close> (lines 278-297).\<close>

definition loadOrCreateTree ::
    "ImmutableForest \<Rightarrow> bytes \<Rightarrow> world \<Rightarrow> (error + nat) \<times> ImmutableForest \<times> world" where
  "loadOrCreateTree imf prefix w =
     (case newTree imf prefix w of
        (Inl err, imf1, w1) \<Rightarrow> (Inl err, imf1, w1)
      | (Inr tree', imf1, w1) \<Rightarrow>
          (case commitID imf1 prefix w1 of
             Inl err \<Rightarrow> (Inl (Errorf ''ImmutableForest.loadOrCreateTree():'' err), imf1, w1)
           | Inr commitID' \<Rightarrow>
               if Version commitID' = 0 then newTree imf1 prefix w1
               else
                 (case rw_Load tree' (Version commitID') (overwriting imf1) w1 of
                    (Some err, w2) \<Rightarrow>
                      (Inl (Errorf ''ImmutableForest.loadOrCreateTree(): could not load tree'' err),
                       imf1, w2)
                  | (None, w2) \<Rightarrow> (Inr tree', imf1, w2))))"

text \<open>\<open>ImmutableForest.tree\<close> (lines 257-264).\<close>

definition tree ::
    "ImmutableForest \<Rightarrow> bytes \<Rightarrow> world \<Rightarrow> (error + nat) \<times> ImmutableForest \<times> world" where
  "tree imf prefix w =
     (case lru_Get (treeCache imf) prefix of
        (Some value, cache) \<Rightarrow> (Inr value, imf\<lparr>treeCache := cache\<rparr>, w)
      | (None, cache) \<Rightarrow> loadOrCreateTree (imf\<lparr>treeCache := cache\<rparr>) prefix w)"

text \<open>\<open>ImmutableForest.Reader\<close> (lines 227-229).\<close>

definition Reader ::
    "ImmutableForest \<Rightarrow> bytes \<Rightarrow> world \<Rightarrow> (error + nat) \<times> ImmutableForest \<times> world" where
  "Reader imf prefix w = tree imf prefix w"

text \<open>\<open>MutableForest.Writer\<close> (lines 162-176).\<close>

definition Writer ::
    "MutableForest \<Rightarrow> bytes \<Rightarrow> world \<Rightarrow> (error + nat) \<times> MutableForest \<times> world" where
  "Writer muf prefix w =
     (case dirty muf prefix of
        Some tree' \<Rightarrow> (Inr tree', muf, w)
      | None \<Rightarrow>
          (case tree (forest muf) prefix w of
             (Inl err, imf1, w1) \<Rightarrow> (Inl err, muf\<lparr>forest := imf1\<rparr>, w1)
           | (Inr tree', imf1, w1) \<Rightarrow>
               (Inr tree',
                muf\<lparr>forest := imf1,
                    dirty := (dirty muf)(prefix \<mapsto> tree'),
                    dirtyPrefixes := dirtyPrefixes muf @ [prefix]\<rparr>,
                w1)))"

text \<open>\<open>MutableForest.setCommit\<close> (lines 215-222).\<close>

definition setCommit ::
    "MutableForest \<Rightarrow> bytes \<Rightarrow> bytes \<Rightarrow> int64 \<Rightarrow> world \<Rightarrow> error option \<times> world" where
  "setCommit muf prefix hash version w =
     (case marshalCommitID hash version of
        Inl err \<Rightarrow>
          (Some (Errorf ''MutableForest.setCommit() could not marshal CommitID'' err), w)
      | Inr bs \<Rightarrow> rw_Set (mcommitsTree muf) prefix bs w)"

text \<open>\<open>MutableForest.saveTree\<close> (lines 207-213).\<close>

definition saveTree :: "MutableForest \<Rightarrow> bytes \<Rightarrow> nat \<Rightarrow> world \<Rightarrow> error option \<times> world" where
  "saveTree muf prefix tree' w =
     (case rw_Save tree' w of
        (Inl err, w1) \<Rightarrow>
          (Some (Errorf ''MutableForest.saveTree() could not save tree'' err), w1)
      | (Inr (hash, version), w1) \<Rightarrow> setCommit muf prefix hash version w1)"

text \<open>
  The loop of \<open>MutableForest.Save\<close> (lines 137-145) over the dirty prefixes that
  are still to be visited. A prefix that the dirty map does not hold yields a
  \<open>nil\<close> tree, and \<open>Updated\<close> on it panics.
\<close>

fun save_dirty :: "MutableForest \<Rightarrow> bytes list \<Rightarrow> world \<Rightarrow> error option \<times> world" where
  "save_dirty muf [] w = (None, w)"
| "save_dirty muf (prefix # rest) w =
     (case dirty muf prefix of
        None \<Rightarrow> (Some PanicNilPointer, w)
      | Some tree' \<Rightarrow>
          if rw_Updated tree' w then
            (case saveTree muf prefix tree' w of
               (Some err, w1) \<Rightarrow> (Some err, w1)
             | (None, w1) \<Rightarrow> save_dirty muf rest w1)
          else save_dirty muf rest w)"

text \<open>\<open>MutableForest.Save\<close> (lines 135-150).\<close>

definition Save ::
    "MutableForest \<Rightarrow> world \<Rightarrow> (error + bytes \<times> int64) \<times> MutableForest \<times> world" where
  "Save muf w =
     (case save_dirty muf (dirtyPrefixes muf) w of
        (Some err, w1) \<Rightarrow> (Inl err, muf, w1)
      | (None, w1) \<Rightarrow>
          (case rw_Save (mcommitsTree muf) w1 of
             (res, w2) \<Rightarrow> (res, muf\<lparr>dirty := Map.empty, dirtyPrefixes := []\<rparr>, w2)))"

text \<open>\<open>MutableForest.GetImmutable\<close> (lines 152-159).\<close>

definition GetImmutable :: "MutableForest \<Rightarrow> int64 \<Rightarrow> world \<Rightarrow> error + ImmutableForest" where
  "GetImmutable muf version w =
     (case rw_GetImmutable (mcommitsTree muf) version w of
        Inl err \<Rightarrow>
          Inl (Errorf ''MutableForest.GetImmutable() could not get commits tree'' err)
      | Inr commitsTree' \<Rightarrow>
          NewImmutableForest (ImmutableTreeReader commitsTree') (treeDB (forest muf))
            (cacheSize (forest muf)) [])"

text \<open>
  \<open>MutableForest.Delete\<close> (lines 189-195). A \<open>nil\<close> slice handed to the decoder
  is an empty input.
\<close>

definition bytes_of :: "bytes option \<Rightarrow> bytes" where
  "bytes_of bs = (case bs of None \<Rightarrow> [] | Some b \<Rightarrow> b)"

definition Delete ::
    "MutableForest \<Rightarrow> bytes \<Rightarrow> world \<Rightarrow> (error + CommitID option) \<times> MutableForest \<times> world" where
  "Delete muf prefix w =
     (case rw_Delete (mcommitsTree muf) prefix w of
        ((bs, removed), w1) \<Rightarrow>
          if \<not> removed then (Inr None, muf, w1)
          else
            (case unmarshalCommitID (bytes_of bs) of
               Inl err \<Rightarrow> (Inl err, muf, w1)
             | Inr commitID' \<Rightarrow> (Inr (Some commitID'), muf, w1)))"

text \<open>\<open>MutableForest.Load\<close>, \<open>Hash\<close> and \<open>Version\<close> (lines 131-133, 198-205).\<close>

definition forest_Load :: "MutableForest \<Rightarrow> int64 \<Rightarrow> world \<Rightarrow> error option \<times> world" where
  "forest_Load muf version w = rw_Load (mcommitsTree muf) version True w"

definition forest_Hash :: "MutableForest \<Rightarrow> world \<Rightarrow> bytes" where
  "forest_Hash muf w = rw_Hash (mcommitsTree muf) w"

definition forest_Version :: "MutableForest \<Rightarrow> world \<Rightarrow> int64" where
  "forest_Version muf w = rw_Version (mcommitsTree muf) w"


section \<open>Notions used to state the properties\<close>

text \<open>
  The commit record \<open>Save\<close> writes for a tree: the encoding of the CommitID that
  holds the hash and the version the tree's own save returns.
\<close>

definition commit_record :: "world \<Rightarrow> nat \<Rightarrow> bytes" where
  "commit_record w r =
     encode_CommitID \<lparr>Version = tree_version (heap w r) + 1,
                      Hash = digest w (working (heap w r))\<rparr>"

text \<open>A tree instance after its own save.\<close>

definition saved_tree :: "RWTree \<Rightarrow> RWTree" where
  "saved_tree t = t\<lparr>tree_version := tree_version t + 1, saved := working t, pending := []\<rparr>"

text \<open>
  The writes to the commits tree that are due for a list of prefixes, in the
  order of the list: one per prefix whose dirty tree has buffered writes.
\<close>

definition commit_writes :: "MutableForest \<Rightarrow> bytes list \<Rightarrow> world \<Rightarrow> tree_write list" where
  "commit_writes muf ps w =
     concat (map (\<lambda>p. case dirty muf p of
                          None \<Rightarrow> []
                        | Some r \<Rightarrow> if rw_Updated r w then [WSet p (commit_record w r)] else []) ps)"

text \<open>
  What resolving the tree of prefix \<open>p\<close> may do to a forest and the world: it
  allocates instances (all bound to the store view of \<open>p\<close>) and leaves every
  other instance as it was, it keeps the forest's settings, it adds to the cache
  only entries for \<open>p\<close> that point to the new instances, and each load it makes
  carries the forest's overwriting flag.
\<close>

definition tree_effect ::
    "ImmutableForest \<Rightarrow> bytes \<Rightarrow> world \<Rightarrow> (error + nat) \<Rightarrow> ImmutableForest \<Rightarrow> world \<Rightarrow> bool" where
  "tree_effect imf p w res imf1 w1 \<longleftrightarrow>
     fresh w \<le> fresh w1 \<and> (\<forall>x. x < fresh w \<longrightarrow> heap w1 x = heap w x) \<and>
     (\<forall>x. fresh w \<le> x \<and> x < fresh w1 \<longrightarrow> tree_db (heap w1 x) = PrefixDB (treeDB imf) p) \<and>
     (\<forall>x. fresh w1 \<le> x \<longrightarrow> heap w1 x = heap w x) \<and>
     treeDB imf1 = treeDB imf \<and> commitsTree imf1 = commitsTree imf \<and>
     overwriting imf1 = overwriting imf \<and> cacheSize imf1 = cacheSize imf \<and>
     cache_size (treeCache imf1) = cache_size (treeCache imf) \<and>
     (\<forall>q r. (q, r) \<in> set (items (treeCache imf1)) \<longrightarrow>
         (q, r) \<in> set (items (treeCache imf)) \<or> q = p \<and> fresh w \<le> r \<and> r < fresh w1) \<and>
     (\<forall>r. res = Inr r \<longrightarrow> (p, r) \<in> set (items (treeCache imf)) \<or> fresh w \<le> r \<and> r < fresh w1) \<and>
     unwritable w1 = unwritable w \<and> digest w1 = digest w \<and>
     (\<exists>new. loads w1 = loads w @ new \<and> (\<forall>l\<in>set new. snd (snd l) = overwriting imf)) \<and>
     (\<not> overwriting imf \<longrightarrow> versions w1 = versions w)"

text \<open>
  A forest that is well formed in a world: the embedded ImmutableForest reads
  the forest's own commits tree; the commits tree is not bound to the store
  view of any namespace; the dirty-order list holds exactly the prefixes of the
  dirty map, each once; and every instance the dirty map or the tree cache
  holds for a prefix is allocated and bound to the store view of that prefix.
  \<open>NewMutableForest\<close> establishes this and every operation keeps it.
\<close>

definition forest_ok :: "MutableForest \<Rightarrow> world \<Rightarrow> bool" where
  "forest_ok muf w \<longleftrightarrow>
     commitsTree (forest muf) = RWTreeReader (mcommitsTree muf) \<and>
     mcommitsTree muf < fresh w \<and>
     (\<forall>p. tree_db (heap w (mcommitsTree muf)) \<noteq> PrefixDB (treeDB (forest muf)) p) \<and>
     set (dirtyPrefixes muf) = dom (dirty muf) \<and>
     distinct (dirtyPrefixes muf) \<and>
     (\<forall>p r. dirty muf p = Some r \<longrightarrow>
        r < fresh w \<and> tree_db (heap w r) = PrefixDB (treeDB (forest muf)) p) \<and>
     (\<forall>p r. (p, r) \<in> set (items (treeCache (forest muf))) \<longrightarrow>
        r < fresh w \<and> tree_db (heap w r) = PrefixDB (treeDB (forest muf)) p) \<and>
     0 < cache_size (treeCache (forest muf))"

text \<open>The key a buffered write is for.\<close>

fun write_key :: "tree_write \<Rightarrow> bytes" where
  "write_key (WSet k v) = k"
| "write_key (WRemove k) = k"


text \<open>
  A caller's use of a forest between two saves: it obtains a tree with
  \<open>Writer\<close> and may set or delete a key on the tree it got. \<open>perform_all\<close> runs a
  sequence of such steps and stops at the first error.
\<close>


datatype action = Acquire bytes | Put bytes bytes bytes | Remove bytes bytes

fun action_prefix :: "action \<Rightarrow> bytes" where
  "action_prefix (Acquire p) = p"
| "action_prefix (Put p k v) = p"
| "action_prefix (Remove p k) = p"

fun perform :: "action \<Rightarrow> MutableForest \<Rightarrow> world \<Rightarrow> error option \<times> MutableForest \<times> world" where
  "perform (Acquire p) muf w =
     (case Writer muf p w of
        (Inl err, muf1, w1) \<Rightarrow> (Some err, muf1, w1)
      | (Inr t, muf1, w1) \<Rightarrow> (None, muf1, w1))"
| "perform (Put p k v) muf w =
     (case Writer muf p w of
        (Inl err, muf1, w1) \<Rightarrow> (Some err, muf1, w1)
      | (Inr t, muf1, w1) \<Rightarrow> (case rw_Set t k (Some v) w1 of (res, w2) \<Rightarrow> (res, muf1, w2)))"
| "perform (Remove p k) muf w =
     (case Writer muf p w of
        (Inl err, muf1, w1) \<Rightarrow> (Some err, muf1, w1)
      | (Inr t, muf1, w1) \<Rightarrow> (case rw_Delete t k w1 of (res, w2) \<Rightarrow> (None, muf1, w2)))"

fun perform_all :: "action list \<Rightarrow> MutableForest \<Rightarrow> world \<Rightarrow> error option \<times> MutableForest \<times> world" where
  "perform_all [] muf w = (None, muf, w)"
| "perform_all (a # acts) muf w =
     (case perform a muf w of
        (Some err, muf1, w1) \<Rightarrow> (Some err, muf1, w1)
      | (None, muf1, w1) \<Rightarrow> perform_all acts muf1 w1)"


text \<open>Adding a prefix to a list of prefixes unless the list has it.\<close>

definition touch :: "bytes list \<Rightarrow> bytes \<Rightarrow> bytes list" where
  "touch acc p = (if p \<in> set acc then acc else acc @ [p])"


text \<open>
  A sequence of \<open>Reader\<close> calls on one forest, with the result of each call; the
  caller goes on after an error.
\<close>

fun read_all ::
    "ImmutableForest \<Rightarrow> bytes list \<Rightarrow> world \<Rightarrow> (error + nat) list \<times> ImmutableForest \<times> world" where
  "read_all imf [] w = ([], imf, w)"
| "read_all imf (p # ps) w =
     (case Reader imf p w of
        (res, imf1, w1) \<Rightarrow>
          (case read_all imf1 ps w1 of (rs, imf2, w2) \<Rightarrow> (res # rs, imf2, w2)))"


text \<open>\<open>Reader(p).Get(k)\<close>: the value a reader of the forest sees for a key.\<close>

definition read_key :: "ImmutableForest \<Rightarrow> bytes \<Rightarrow> bytes \<Rightarrow> world \<Rightarrow> error + bytes option" where
  "read_key imf p k w =
     (case Reader imf p w of
        (Inl err, imf1, w1) \<Rightarrow> Inl err
      | (Inr t, imf1, w1) \<Rightarrow> Inr (rw_Get t k w1))"


section \<open>Properties of the CommitID codec\<close>


lemma bit_127_int: "bit (127 :: int) n \<longleftrightarrow> n < 7"
proof -
  have "(127 :: int) = mask 7" by (simp add: mask_eq_exp_minus_1)
  then show ?thesis by (simp only: bit_mask_iff) simp
qed

lemma bit_128_int: "bit (128 :: int) n \<longleftrightarrow> n = 7"
proof -
  have "(128 :: int) = 2 ^ 7" by simp
  then show ?thesis by (simp only: bit_exp_iff) auto
qed

lemma less_128_bit:
  fixes y :: "'a::len word"
  assumes "y < 0x80" and "bit y n" shows "n < 7"
proof -
  have "y < 2 ^ 7" using assms(1) by simp
  then have "y AND mask 7 = y" by (rule less_mask_eq)
  with assms(2) have "bit (y AND mask 7) n" by simp
  then show ?thesis by (simp add: bit_simps)
qed

lemma varint_step:
  fixes y :: int64
  shows "push_bit s (ucast ((ucast (y AND 0x7F) OR 0x80 :: byte) AND 0x7F) :: int64) OR push_bit (s + 7) (drop_bit 7 y) = push_bit s y"
proof (rule bit_word_eqI)
  fix n assume "n < LENGTH(64)"
  show "bit (push_bit s (ucast ((ucast (y AND 0x7F) OR 0x80 :: byte) AND 0x7F) :: int64) OR push_bit (s + 7) (drop_bit 7 y)) n = bit (push_bit s y) n"
  proof (cases "s + 7 \<le> n")
    case True
    then have "7 + (n - (s + 7)) = n - s" by simp
    with True show ?thesis by (auto simp: bit_simps bit_127_int bit_128_int)
  next
    case False
    then show ?thesis by (auto simp: bit_simps bit_127_int bit_128_int)
  qed
qed

lemma varint_last:
  fixes y :: int64
  assumes "y < 0x80"
  shows "(ucast ((ucast y :: byte) AND 0x7F) :: int64) = y"
  by (rule bit_word_eqI) (auto simp: bit_simps bit_127_int dest: less_128_bit[OF assms])

lemma varint_last_lt:
  fixes y :: int64
  assumes "y < 0x80"
  shows "(ucast y :: byte) < 0x80"
proof -
  have "unat y < 128" using assms by (simp add: word_less_nat_alt)
  then have "take_bit 8 (unat y) = unat y" by (simp add: take_bit_nat_eq_self_iff)
  with \<open>unat y < 128\<close> show ?thesis by (simp add: word_less_nat_alt unsigned_ucast_eq)
qed

lemma varint_cont_ge:
  fixes y :: int64
  shows "\<not> (ucast (y AND 0x7F) OR 0x80 :: byte) < 0x80"
proof
  assume "(ucast (y AND 0x7F) OR 0x80 :: byte) < 0x80"
  moreover have "bit (ucast (y AND 0x7F) OR 0x80 :: byte) 7" by (simp add: bit_simps bit_128_int)
  ultimately show False by (auto dest: less_128_bit)
qed

lemma DecodeVarint_from_Encode:
  "(\<forall>n. bit y n \<longrightarrow> shift + n < 64) \<Longrightarrow> shift < 64 \<Longrightarrow>
   DecodeVarint_from shift acc (EncodeVarint y @ rest) = Inr (acc OR push_bit shift y, rest)"
proof (induction y arbitrary: shift acc rule: EncodeVarint.induct)
  case (1 x)
  show ?case
  proof (cases "x < 0x80")
    case True
    then show ?thesis using 1(3)
      by (subst EncodeVarint.simps) (simp add: varint_last varint_last_lt)
  next
    case False
    have "\<exists>n\<ge>7. bit x n"
    proof (rule ccontr)
      assume "\<not> (\<exists>n\<ge>7. bit x n)"
      then have "take_bit 7 x = x" by (intro bit_word_eqI) (auto simp: bit_simps not_le)
      then have "x AND mask 7 = x" by (simp add: take_bit_eq_mask)
      moreover have "x AND mask 7 < 2 ^ 7" by (rule and_mask_less_size) (simp add: word_size)
      ultimately have "x < 2 ^ 7" by simp
      with False show False by simp
    qed
    then obtain n where n: "7 \<le> n" "bit x n" by blast
    with 1(2) have s: "shift + 7 < 64" by fastforce
    have b: "\<forall>n. bit (drop_bit 7 x) n \<longrightarrow> shift + 7 + n < 64"
      using 1(2) by (auto simp: bit_simps ac_simps)
    have "DecodeVarint_from (shift + 7) acc' (EncodeVarint (drop_bit 7 x) @ rest) =
       Inr (acc' OR push_bit (shift + 7) (drop_bit 7 x), rest)" for acc'
      using 1(1)[OF False b s] .
    then show ?thesis using False 1(3)
      apply (subst EncodeVarint.simps) 
      apply (simp add: varint_cont_ge Let_def or.assoc varint_step)
      done
  qed
qed

lemma DecodeVarint_Encode:
  "DecodeVarint (EncodeVarint y @ rest) = Inr (y, rest)"
  unfolding DecodeVarint_def
  by (subst DecodeVarint_from_Encode) (auto dest: bit_imp_le_length)


lemma DecodeVarint_tag1: "DecodeVarint (0x08 # rest) = Inr (8, rest)"
  by (simp add: DecodeVarint_def)

lemma DecodeVarint_tag2: "DecodeVarint (0x12 # rest) = Inr (18, rest)"
  by (simp add: DecodeVarint_def)

lemma decode_version_field:
  "decode_fields m (0x08 # EncodeVarint v @ rest) = decode_fields (m\<lparr>Version := v\<rparr>) rest"
  by (simp add: decode_fields.simps(2) DecodeVarint_tag1 DecodeVarint_Encode)

lemma decode_hash_field:
  assumes "length h < 2 ^ 63"
  shows "decode_fields m (0x12 # EncodeVarint (of_nat (length h)) @ h @ rest) =
         decode_fields (m\<lparr>Hash := h\<rparr>) rest"
proof -
  have "unat (of_nat (length h) :: int64) = length h"
    using assms by (simp add: unat_of_nat)
  then show ?thesis using assms
    by (simp add: decode_fields.simps(2) DecodeVarint_tag2 DecodeVarint_Encode)
qed

lemma decode_encode_CommitID:
  assumes "length h < 2 ^ 63"
  shows "decode_fields new_CommitID (encode_CommitID \<lparr>Version = v, Hash = h\<rparr>) =
         Inr \<lparr>Version = v, Hash = h\<rparr>"
proof -
  have h: "decode_fields m (if h = [] then [] else 0x12 # EncodeVarint (of_nat (length h)) @ h)
        = Inr (m\<lparr>Hash := if h = [] then Hash m else h\<rparr>)" for m :: CommitID
    using decode_hash_field[OF assms, of m "[]"] by simp
  show ?thesis
  proof (cases "v = 0")
    case True
    then show ?thesis using h[of new_CommitID]
      by (cases "h = []") (simp_all add: encode_CommitID_def new_CommitID_def)
  next
    case False
    then show ?thesis
      using h[of "\<lparr>Version = v, Hash = []\<rparr>"]
        decode_version_field[of new_CommitID v "[]"]
      by (cases "h = []") (simp_all add: encode_CommitID_def new_CommitID_def decode_version_field)
  qed
qed


lemma marshalCommitID_eq:
  "marshalCommitID h v = Inr (Some (encode_CommitID \<lparr>Version = v, Hash = h\<rparr>))"
  by (simp add: marshalCommitID_def MarshalBinary_def Let_def)

text \<open>
  C8: for every version \<open>v\<close> (the non-negative ones in particular) and every byte
  sequence \<open>h\<close>, the empty one included, decoding the binary encoding of
  \<open>CommitID{v, h}\<close> gives back \<open>CommitID{v, h}\<close> and no error. The length of \<open>h\<close>
  is that of a Go slice, which fits a signed 64-bit integer.
\<close>

theorem commitID_round_trip:
  assumes "length h < 2 ^ 63"
  shows "\<exists>bs. marshalCommitID h v = Inr (Some bs) \<and>
              unmarshalCommitID bs = Inr \<lparr>Version = v, Hash = h\<rparr>"
  using decode_encode_CommitID[OF assms, of v]
  by (simp add: marshalCommitID_eq unmarshalCommitID_def UnmarshalBinary_def)

theorem commitID_round_trip_witness:
  "length [1, 2, 3 :: byte] < 2 ^ 63 \<and>
   (\<exists>bs. marshalCommitID [1, 2, 3] 5 = Inr (Some bs) \<and>
         unmarshalCommitID bs = Inr \<lparr>Version = 5, Hash = [1, 2, 3]\<rparr>)"
  using commitID_round_trip[of "[1, 2, 3]" 5] by simp

text \<open>
  C9: encoding the zero-value CommitID (version 0, empty hash) succeeds and
  returns a byte sequence that is not \<open>nil\<close>: the underlying marshalling gives
  \<open>nil\<close> for it, and whenever it does, \<open>marshalCommitID\<close> returns the explicit
  empty sequence instead; no result of \<open>marshalCommitID\<close> is \<open>nil\<close>.
\<close>

theorem marshalCommitID_never_nil:
  "MarshalBinary new_CommitID = Inr None \<and>
   marshalCommitID [] 0 = Inr (Some []) \<and>
   (MarshalBinary \<lparr>Version = v, Hash = h\<rparr> = Inr None \<longrightarrow>
      marshalCommitID h v = Inr (Some [])) \<and>
   marshalCommitID h v \<noteq> Inr None"
  by (simp add: marshalCommitID_def MarshalBinary_def new_CommitID_def encode_CommitID_def Let_def)

theorem marshalCommitID_never_nil_witness:
  "MarshalBinary \<lparr>Version = 0, Hash = []\<rparr> = Inr None \<and>
   marshalCommitID [] 0 = Inr (Some [])"
  using marshalCommitID_never_nil[of 0 "[]"] by (simp add: new_CommitID_def)


section \<open>What saving the dirty trees does\<close>


lemma saveTree_success:
  assumes "saveTree muf p r w = (None, w1)" and "r \<noteq> mcommitsTree muf"
  shows "w1 = w\<lparr>heap := (heap w)(r := saved_tree (heap w r),
                     mcommitsTree muf := (heap w (mcommitsTree muf))
                        \<lparr>pending := pending (heap w (mcommitsTree muf)) @ [WSet p (commit_record w r)]\<rparr>),
                 versions := (versions w)(tree_db (heap w r) :=
                    (versions w (tree_db (heap w r)))(tree_version (heap w r) + 1 \<mapsto> working (heap w r)))\<rparr>"
    and "\<not> unwritable w (tree_db (heap w r))"
  using assms
  by (auto simp: saveTree_def rw_Save_def setCommit_def marshalCommitID_eq rw_Set_def Let_def
      commit_record_def saved_tree_def fun_upd_twist split: if_splits)

lemma saveTree_failure:
  assumes "saveTree muf p r w = (Some e, w1)"
  shows "w1 = w" and "unwritable w (tree_db (heap w r))"
  using assms
  by (auto simp: saveTree_def rw_Save_def setCommit_def marshalCommitID_eq rw_Set_def Let_def
      split: if_splits)

lemma commit_writes_Nil [simp]: "commit_writes muf [] w = []"
  by (simp add: commit_writes_def)

lemma commit_writes_Cons:
  "commit_writes muf (p # ps) w =
     (case dirty muf p of None \<Rightarrow> []
      | Some r \<Rightarrow> if rw_Updated r w then [WSet p (commit_record w r)] else []) @ commit_writes muf ps w"
  by (simp add: commit_writes_def)

lemma commit_writes_cong:
  assumes "\<And>p r. p \<in> set ps \<Longrightarrow> dirty muf p = Some r \<Longrightarrow> heap w1 r = heap w r"
    and "digest w1 = digest w"
  shows "commit_writes muf ps w1 = commit_writes muf ps w"
  unfolding commit_writes_def
  by (rule arg_cong[where f=concat], rule map_cong)
     (auto simp: rw_Updated_def commit_record_def assms split: option.splits)


lemma save_dirty_success:
  assumes "save_dirty muf ps w = (None, w')"
    and "distinct ps"
    and "\<forall>p\<in>set ps. \<exists>r. dirty muf p = Some r \<and> tree_db (heap w r) = PrefixDB tdb p"
    and "\<forall>p. tree_db (heap w (mcommitsTree muf)) \<noteq> PrefixDB tdb p"
  shows "pending (heap w' (mcommitsTree muf)) =
           pending (heap w (mcommitsTree muf)) @ commit_writes muf ps w
       \<and> tree_version (heap w' (mcommitsTree muf)) = tree_version (heap w (mcommitsTree muf))
       \<and> saved (heap w' (mcommitsTree muf)) = saved (heap w (mcommitsTree muf))
       \<and> tree_db (heap w' (mcommitsTree muf)) = tree_db (heap w (mcommitsTree muf))
       \<and> (\<forall>p\<in>set ps. \<forall>r. dirty muf p = Some r \<longrightarrow>
             heap w' r = (if rw_Updated r w then saved_tree (heap w r) else heap w r))
       \<and> (\<forall>x. x \<noteq> mcommitsTree muf \<and> (\<forall>p\<in>set ps. dirty muf p \<noteq> Some x) \<longrightarrow> heap w' x = heap w x)
       \<and> (\<forall>p\<in>set ps. \<forall>r. dirty muf p = Some r \<and> rw_Updated r w \<longrightarrow>
             \<not> unwritable w (PrefixDB tdb p) \<and>
             versions w' (PrefixDB tdb p) =
               (versions w (PrefixDB tdb p))(tree_version (heap w r) + 1 \<mapsto> working (heap w r)))
       \<and> (\<forall>d. (\<forall>p\<in>set ps. d \<noteq> PrefixDB tdb p) \<longrightarrow> versions w' d = versions w d)
       \<and> fresh w' = fresh w \<and> loads w' = loads w \<and> unwritable w' = unwritable w
       \<and> digest w' = digest w"
  using assms
proof (induction ps arbitrary: w)
  case Nil
  then show ?case by simp
next
  case (Cons p ps)
  from Cons.prems(3) obtain r where r: "dirty muf p = Some r" "tree_db (heap w r) = PrefixDB tdb p"
    by auto
  with Cons.prems(4) have rct: "r \<noteq> mcommitsTree muf" by metis
  have others: "r' \<noteq> r" "r' \<noteq> mcommitsTree muf"
    if "q \<in> set ps" "dirty muf q = Some r'" for q r'
  proof -
    from Cons.prems(3) that have db: "tree_db (heap w r') = PrefixDB tdb q" by auto
    from Cons.prems(2) that have "q \<noteq> p" by auto
    with db r show "r' \<noteq> r" by auto
    from db Cons.prems(4) show "r' \<noteq> mcommitsTree muf" by metis
  qed
  show ?case
  proof (cases "rw_Updated r w")
    case False
    with Cons.prems r have sd: "save_dirty muf ps w = (None, w')" by simp
    from Cons.prems have "distinct ps"
      "\<forall>p\<in>set ps. \<exists>r. dirty muf p = Some r \<and> tree_db (heap w r) = PrefixDB tdb p" by auto
    from Cons.IH[OF sd this Cons.prems(4)] False r rct others show ?thesis
      by (auto simp: commit_writes_Cons)
  next
    case True
    with Cons.prems r obtain w1 where st: "saveTree muf p r w = (None, w1)"
      and sd: "save_dirty muf ps w1 = (None, w')"
      by (auto split: prod.splits option.splits)
    note w1 = saveTree_success[OF st rct]
    have h1: "heap w1 x = heap w x" if "x \<noteq> r" "x \<noteq> mcommitsTree muf" for x
      using that by (subst w1(1)) simp
    have a: "distinct ps" using Cons.prems by simp
    have b: "\<forall>p\<in>set ps. \<exists>r. dirty muf p = Some r \<and> tree_db (heap w1 r) = PrefixDB tdb p"
      using Cons.prems(3) others h1 by fastforce
    have c: "\<forall>p. tree_db (heap w1 (mcommitsTree muf)) \<noteq> PrefixDB tdb p"
      using Cons.prems(4) rct by (subst w1(1)) simp
    have cw: "commit_writes muf ps w1 = commit_writes muf ps w"
      by (rule commit_writes_cong) (use others h1 in \<open>auto simp: w1(1)\<close>)
    note IH = Cons.IH[OF sd a b c]
    have ct1: "heap w1 (mcommitsTree muf) = (heap w (mcommitsTree muf))
        \<lparr>pending := pending (heap w (mcommitsTree muf)) @ [WSet p (commit_record w r)]\<rparr>"
      using rct by (subst w1(1)) simp
    have r1: "heap w1 r = saved_tree (heap w r)"
      using rct by (subst w1(1)) simp
    have v1: "versions w1 = (versions w)(PrefixDB tdb p :=
                    (versions w (PrefixDB tdb p))(tree_version (heap w r) + 1 \<mapsto> working (heap w r)))"
      using r by (subst w1(1)) simp
    have o1: "fresh w1 = fresh w" "loads w1 = loads w" "unwritable w1 = unwritable w" "digest w1 = digest w"
      by (subst w1(1), simp)+
    have u1: "rw_Updated x w1 = rw_Updated x w" if "x \<noteq> r" "x \<noteq> mcommitsTree muf" for x
      using h1[OF that] by (simp add: rw_Updated_def)
    have notr: "dirty muf q \<noteq> Some r" if "q \<in> set ps" for q
      using others(1)[OF that] by auto
    have pnotin: "p \<notin> set ps" using Cons.prems(2) by simp
    from IH have i5: "\<And>q x. q \<in> set ps \<Longrightarrow> dirty muf q = Some x \<Longrightarrow>
        heap w' x = (if rw_Updated x w1 then saved_tree (heap w1 x) else heap w1 x)" by blast
    from IH have i6: "\<And>x. x \<noteq> mcommitsTree muf \<Longrightarrow> (\<forall>q\<in>set ps. dirty muf q \<noteq> Some x) \<Longrightarrow>
        heap w' x = heap w1 x" by blast
    from IH have i7: "\<And>q x. q \<in> set ps \<Longrightarrow> dirty muf q = Some x \<Longrightarrow> rw_Updated x w1 \<Longrightarrow>
        \<not> unwritable w1 (PrefixDB tdb q) \<and> versions w' (PrefixDB tdb q) =
          (versions w1 (PrefixDB tdb q))(tree_version (heap w1 x) + 1 \<mapsto> working (heap w1 x))" by blast
    from IH have i8: "\<And>d. (\<forall>q\<in>set ps. d \<noteq> PrefixDB tdb q) \<Longrightarrow> versions w' d = versions w1 d" by blast
    have g5: "heap w' x = (if rw_Updated x w then saved_tree (heap w x) else heap w x)"
      if "q \<in> set (p # ps)" "dirty muf q = Some x" for q x
    proof (cases "q = p")
      case True
      with that r have "x = r" by simp
      with i6[OF rct] notr r1 \<open>rw_Updated r w\<close> show ?thesis by simp
    next
      case False
      with that have q: "q \<in> set ps" by simp
      from others[OF q that(2)] i5[OF q that(2)] h1 u1 show ?thesis by simp
    qed
    have g6: "heap w' x = heap w x"
      if "x \<noteq> mcommitsTree muf" "\<forall>q\<in>set (p # ps). dirty muf q \<noteq> Some x" for x
    proof -
      from that r have "x \<noteq> r" by auto
      with i6[of x] that h1 show ?thesis by simp
    qed
    have g7: "\<not> unwritable w (PrefixDB tdb q) \<and> versions w' (PrefixDB tdb q) =
          (versions w (PrefixDB tdb q))(tree_version (heap w x) + 1 \<mapsto> working (heap w x))"
      if "q \<in> set (p # ps)" "dirty muf q = Some x" "rw_Updated x w" for q x
    proof (cases "q = p")
      case True
      with that r have "x = r" by simp
      from pnotin have "\<forall>q\<in>set ps. PrefixDB tdb p \<noteq> PrefixDB tdb q" by auto
      from i8[OF this] v1 w1(2) r True \<open>x = r\<close> show ?thesis by simp
    next
      case False
      with that have q: "q \<in> set ps" by simp
      from others[OF q that(2)] i7[OF q that(2)] h1 u1 that(3) o1 v1 False show ?thesis by simp
    qed
    have g8: "versions w' d = versions w d" if "\<forall>q\<in>set (p # ps). d \<noteq> PrefixDB tdb q" for d
      using i8[of d] that v1 by simp
    show ?thesis
      apply (intro conjI)
      subgoal using IH True r by (simp add: ct1 cw commit_writes_Cons)
      subgoal using IH by (simp add: ct1)
      subgoal using IH by (simp add: ct1)
      subgoal using IH by (simp add: ct1)
      subgoal using g5 by blast
      subgoal using g6 by blast
      subgoal using g7 by blast
      subgoal using g8 by blast
      subgoal using IH o1 by simp
      subgoal using IH o1 by simp
      subgoal using IH o1 by simp
      subgoal using IH o1 by simp
      done
  qed
qed


lemma saveTree_frame:
  assumes "saveTree muf p r w = (res, w1)" and "r \<noteq> mcommitsTree muf"
  shows "tree_version (heap w1 (mcommitsTree muf)) = tree_version (heap w (mcommitsTree muf))"
    and "saved (heap w1 (mcommitsTree muf)) = saved (heap w (mcommitsTree muf))"
    and "tree_db (heap w1 x) = tree_db (heap w x)"
    and "x \<noteq> r \<Longrightarrow> x \<noteq> mcommitsTree muf \<Longrightarrow> heap w1 x = heap w x"
    and "d \<noteq> tree_db (heap w r) \<Longrightarrow> versions w1 d = versions w d"
    and "fresh w1 = fresh w" and "loads w1 = loads w" and "unwritable w1 = unwritable w"
    and "digest w1 = digest w"
  using assms
  by (auto simp: saveTree_def rw_Save_def setCommit_def marshalCommitID_eq rw_Set_def Let_def
      split: if_splits)

lemma save_dirty_frame:
  assumes "save_dirty muf ps w = (res, w')"
    and "\<forall>p\<in>set ps. \<forall>r. dirty muf p = Some r \<longrightarrow> tree_db (heap w r) = PrefixDB tdb p"
    and "\<forall>p. tree_db (heap w (mcommitsTree muf)) \<noteq> PrefixDB tdb p"
  shows "tree_version (heap w' (mcommitsTree muf)) = tree_version (heap w (mcommitsTree muf))
       \<and> saved (heap w' (mcommitsTree muf)) = saved (heap w (mcommitsTree muf))
       \<and> (\<forall>x. tree_db (heap w' x) = tree_db (heap w x))
       \<and> (\<forall>x. x \<noteq> mcommitsTree muf \<and> (\<forall>p\<in>set ps. dirty muf p \<noteq> Some x) \<longrightarrow> heap w' x = heap w x)
       \<and> (\<forall>d. (\<forall>p\<in>set ps. d \<noteq> PrefixDB tdb p) \<longrightarrow> versions w' d = versions w d)
       \<and> fresh w' = fresh w \<and> loads w' = loads w \<and> unwritable w' = unwritable w
       \<and> digest w' = digest w"
  using assms
proof (induction ps arbitrary: w)
  case Nil
  then show ?case by simp
next
  case (Cons p ps)
  show ?case
  proof (cases "dirty muf p")
    case None
    with Cons.prems show ?thesis by simp
  next
    case (Some r)
    with Cons.prems(2) have db: "tree_db (heap w r) = PrefixDB tdb p" by simp
    with Cons.prems(3) have rct: "r \<noteq> mcommitsTree muf" by metis
    show ?thesis
    proof (cases "rw_Updated r w")
      case False
      with Cons.prems Some have sd: "save_dirty muf ps w = (res, w')" by simp
      from Cons.prems have "\<forall>p\<in>set ps. \<forall>r. dirty muf p = Some r \<longrightarrow> tree_db (heap w r) = PrefixDB tdb p"
        by simp
      from Cons.IH[OF sd this Cons.prems(3)] show ?thesis by auto
    next
      case True
      obtain r1 w1 where st: "saveTree muf p r w = (r1, w1)" by (cases "saveTree muf p r w")
      note fr = saveTree_frame[OF st rct]
      show ?thesis
      proof (cases r1)
        case (Some e)
        with Cons.prems \<open>dirty muf p = Some r\<close> True st have "w' = w1" by simp
        with fr db \<open>dirty muf p = Some r\<close> show ?thesis by auto
      next
        case None
        with Cons.prems \<open>dirty muf p = Some r\<close> True st
        have sd: "save_dirty muf ps w1 = (res, w')" by simp
        have b: "\<forall>p\<in>set ps. \<forall>r. dirty muf p = Some r \<longrightarrow> tree_db (heap w1 r) = PrefixDB tdb p"
          using Cons.prems(2) fr(3) by simp
        have c: "\<forall>p. tree_db (heap w1 (mcommitsTree muf)) \<noteq> PrefixDB tdb p"
          using Cons.prems(3) fr(3) by simp
        note IH = Cons.IH[OF sd b c]
        from IH have i4: "\<And>x. x \<noteq> mcommitsTree muf \<Longrightarrow> (\<forall>q\<in>set ps. dirty muf q \<noteq> Some x) \<Longrightarrow>
            heap w' x = heap w1 x" by blast
        from IH have i5: "\<And>d. (\<forall>q\<in>set ps. d \<noteq> PrefixDB tdb q) \<Longrightarrow> versions w' d = versions w1 d"
          by blast
        have g4: "heap w' x = heap w x"
          if "x \<noteq> mcommitsTree muf" "\<forall>q\<in>set (p # ps). dirty muf q \<noteq> Some x" for x
        proof -
          from that \<open>dirty muf p = Some r\<close> have "x \<noteq> r" by auto
          with i4[of x] that fr(4)[of x] show ?thesis by simp
        qed
        have g5: "versions w' d = versions w d" if "\<forall>q\<in>set (p # ps). d \<noteq> PrefixDB tdb q" for d
          using i5[of d] that fr(5)[of d] db by simp
        show ?thesis
          apply (intro conjI)
          subgoal using IH fr by simp
          subgoal using IH fr by simp
          subgoal using IH fr by simp
          subgoal using g4 by blast
          subgoal using g5 by blast
          subgoal using IH fr by simp
          subgoal using IH fr by simp
          subgoal using IH fr by simp
          subgoal using IH fr by simp
          done
      qed
    qed
  qed
qed

lemma save_dirty_fails:
  assumes "q \<in> set ps" and "dirty muf q = Some rq" and "rw_Updated rq w"
    and "unwritable w (tree_db (heap w rq))"
    and "\<forall>p\<in>set ps. \<exists>r. dirty muf p = Some r \<and> tree_db (heap w r) = PrefixDB tdb p"
    and "\<forall>p. tree_db (heap w (mcommitsTree muf)) \<noteq> PrefixDB tdb p"
  shows "\<exists>e w'. save_dirty muf ps w = (Some e, w')"
  using assms
proof (induction ps arbitrary: w)
  case Nil
  then show ?case by simp
next
  case (Cons p ps)
  from Cons.prems(5) obtain r where r: "dirty muf p = Some r" "tree_db (heap w r) = PrefixDB tdb p"
    by auto
  with Cons.prems(6) have rct: "r \<noteq> mcommitsTree muf" by metis
  show ?case
  proof (cases "rw_Updated r w")
    case True
    obtain r1 w1 where st: "saveTree muf p r w = (r1, w1)" by (cases "saveTree muf p r w")
    show ?thesis
    proof (cases r1)
      case (Some e)
      with r True st show ?thesis by simp
    next
      case None
      note fr = saveTree_frame[OF st rct]
      from st None have ok: "\<not> unwritable w (tree_db (heap w r))"
        using saveTree_success(2)[OF _ rct] by simp
      with Cons.prems(2,4) r have "q \<noteq> p" by auto
      with Cons.prems(1) have q: "q \<in> set ps" by simp
      from Cons.prems(5) q Cons.prems(2) have dbq: "tree_db (heap w rq) = PrefixDB tdb q" by auto
      with r \<open>q \<noteq> p\<close> have "rq \<noteq> r" by auto
      moreover from dbq Cons.prems(6) have "rq \<noteq> mcommitsTree muf" by metis
      ultimately have hq: "heap w1 rq = heap w rq" using fr(4) by simp
      have "\<exists>e w'. save_dirty muf ps w1 = (Some e, w')"
      proof (rule Cons.IH[OF q Cons.prems(2)])
        show "rw_Updated rq w1" using Cons.prems(3) hq by (simp add: rw_Updated_def)
        show "unwritable w1 (tree_db (heap w1 rq))" using Cons.prems(4) hq fr(8) by simp
        show "\<forall>p\<in>set ps. \<exists>r. dirty muf p = Some r \<and> tree_db (heap w1 r) = PrefixDB tdb p"
          using Cons.prems(5) fr(3) by simp
        show "\<forall>p. tree_db (heap w1 (mcommitsTree muf)) \<noteq> PrefixDB tdb p"
          using Cons.prems(6) fr(3) by simp
      qed
      with r True st None show ?thesis by simp
    qed
  next
    case False
    with Cons.prems(2,3) r have "q \<noteq> p" by auto
    with Cons.prems(1) have q: "q \<in> set ps" by simp
    have "\<exists>e w'. save_dirty muf ps w = (Some e, w')"
      by (rule Cons.IH[OF q Cons.prems(2,3,4)]) (use Cons.prems in auto)
    with r False show ?thesis by simp
  qed
qed


section \<open>What resolving a tree does\<close>


lemma set_delete_subset: "set (AList.delete k al) \<subseteq> set al"
  by (induction al) auto

lemma set_butlast_subset: "set (butlast xs) \<subseteq> set xs"
  by (induction xs) auto

lemma lru_Get_effect:
  assumes "lru_Get c k = (res, c1)"
  shows "set (items c1) \<subseteq> set (items c)" and "cache_size c1 = cache_size c"
    and "res = map_of (items c) k" and "\<And>r. res = Some r \<Longrightarrow> (k, r) \<in> set (items c)"
  using assms set_delete_subset[of k "items c"]
  by (auto simp: lru_Get_def split: option.splits dest: map_of_SomeD map_of_SomeD[OF sym])

lemma lru_Add_effect:
  shows "set (items (lru_Add c k v)) \<subseteq> insert (k, v) (set (items c))"
    and "cache_size (lru_Add c k v) = cache_size c"
  using set_delete_subset[of k "items c"] set_butlast_subset[of "(k, v) # AList.delete k (items c)"]
  by (auto simp: lru_Add_def Let_def)

lemma tree_effectI:
  assumes "fresh w \<le> fresh w1"
    and "\<And>x. x < fresh w \<Longrightarrow> heap w1 x = heap w x"
    and "\<And>x. fresh w \<le> x \<Longrightarrow> x < fresh w1 \<Longrightarrow> tree_db (heap w1 x) = PrefixDB (treeDB imf) p"
    and "\<And>x. fresh w1 \<le> x \<Longrightarrow> heap w1 x = heap w x"
    and "treeDB imf1 = treeDB imf" and "commitsTree imf1 = commitsTree imf"
    and "overwriting imf1 = overwriting imf" and "cacheSize imf1 = cacheSize imf"
    and "cache_size (treeCache imf1) = cache_size (treeCache imf)"
    and "\<And>q r. (q, r) \<in> set (items (treeCache imf1)) \<Longrightarrow>
         (q, r) \<in> set (items (treeCache imf)) \<or> q = p \<and> fresh w \<le> r \<and> r < fresh w1"
    and "\<And>r. res = Inr r \<Longrightarrow> (p, r) \<in> set (items (treeCache imf)) \<or> fresh w \<le> r \<and> r < fresh w1"
    and "unwritable w1 = unwritable w" and "digest w1 = digest w"
    and "\<exists>new. loads w1 = loads w @ new \<and> (\<forall>l\<in>set new. snd (snd l) = overwriting imf)"
    and "\<not> overwriting imf \<Longrightarrow> versions w1 = versions w"
  shows "tree_effect imf p w res imf1 w1"
  unfolding tree_effect_def using assms by blast

lemma tree_effectD:
  assumes "tree_effect imf p w res imf1 w1"
  shows "fresh w \<le> fresh w1"
    and "\<And>x. x < fresh w \<Longrightarrow> heap w1 x = heap w x"
    and "\<And>x. fresh w \<le> x \<Longrightarrow> x < fresh w1 \<Longrightarrow> tree_db (heap w1 x) = PrefixDB (treeDB imf) p"
    and "treeDB imf1 = treeDB imf" and "commitsTree imf1 = commitsTree imf"
    and "overwriting imf1 = overwriting imf" and "cacheSize imf1 = cacheSize imf"
    and "cache_size (treeCache imf1) = cache_size (treeCache imf)"
    and "\<And>q r. (q, r) \<in> set (items (treeCache imf1)) \<Longrightarrow>
         (q, r) \<in> set (items (treeCache imf)) \<or> q = p \<and> fresh w \<le> r \<and> r < fresh w1"
    and "\<And>r. res = Inr r \<Longrightarrow> (p, r) \<in> set (items (treeCache imf)) \<or> fresh w \<le> r \<and> r < fresh w1"
    and "unwritable w1 = unwritable w" and "digest w1 = digest w"
    and "\<exists>new. loads w1 = loads w @ new \<and> (\<forall>l\<in>set new. snd (snd l) = overwriting imf)"
    and "\<not> overwriting imf \<Longrightarrow> versions w1 = versions w"
    and "\<And>x. fresh w1 \<le> x \<Longrightarrow> heap w1 x = heap w x"
  using assms unfolding tree_effect_def by blast+

lemma newTree_effect:
  "newTree imf p w = (res, imf1, w1) \<Longrightarrow> tree_effect imf p w res imf1 w1"
  using lru_Add_effect[of "treeCache imf" p "fresh w"]
  by (auto simp: newTree_def NewRWTree_def tree_effect_def)

lemma tree_effect_trans:
  assumes "tree_effect imf p w res imf1 w1" and "tree_effect imf1 p w1 res2 imf2 w2"
  shows "tree_effect imf p w res2 imf2 w2"
proof (rule tree_effectI)
  note A = tree_effectD[OF assms(1)] and B = tree_effectD[OF assms(2)]
  show "fresh w \<le> fresh w2" using A(1) B(1) by simp
  show "heap w2 x = heap w x" if "x < fresh w" for x
    using A(2)[OF that] B(2)[of x] that A(1) by simp
  show "tree_db (heap w2 x) = PrefixDB (treeDB imf) p" if "fresh w \<le> x" "x < fresh w2" for x
  proof (cases "x < fresh w1")
    case True
    with A(3)[OF that(1)] B(2)[of x] show ?thesis by simp
  next
    case False
    with B(3)[of x] that(2) A(4) show ?thesis by simp
  qed
  show "heap w2 x = heap w x" if "fresh w2 \<le> x" for x
    using B(15)[OF that] A(15)[of x] that B(1) by simp
  show "treeDB imf2 = treeDB imf" using A(4) B(4) by simp
  show "commitsTree imf2 = commitsTree imf" using A(5) B(5) by simp
  show "overwriting imf2 = overwriting imf" using A(6) B(6) by simp
  show "cacheSize imf2 = cacheSize imf" using A(7) B(7) by simp
  show "cache_size (treeCache imf2) = cache_size (treeCache imf)" using A(8) B(8) by simp
  show "(q, r) \<in> set (items (treeCache imf)) \<or> q = p \<and> fresh w \<le> r \<and> r < fresh w2"
    if "(q, r) \<in> set (items (treeCache imf2))" for q r
    using B(9)[OF that] A(9)[of q r] A(1) B(1) by auto
  show "(p, r) \<in> set (items (treeCache imf)) \<or> fresh w \<le> r \<and> r < fresh w2"
    if "res2 = Inr r" for r
    using B(10)[OF that] A(9)[of p r] A(1) B(1) by auto
  show "unwritable w2 = unwritable w" using A(11) B(11) by simp
  show "digest w2 = digest w" using A(12) B(12) by simp
  from A(13) obtain n1 where n1: "loads w1 = loads w @ n1" "\<forall>l\<in>set n1. snd (snd l) = overwriting imf"
    by blast
  from B(13) A(6) obtain n2 where n2: "loads w2 = loads w1 @ n2" "\<forall>l\<in>set n2. snd (snd l) = overwriting imf"
    by auto
  show "\<exists>new. loads w2 = loads w @ new \<and> (\<forall>l\<in>set new. snd (snd l) = overwriting imf)"
    using n1 n2 by (intro exI[of _ "n1 @ n2"]) auto
  show "versions w2 = versions w" if "\<not> overwriting imf"
    using A(14)[OF that] B(14) A(6) that by simp
qed

lemma newTree_result:
  "newTree imf p w = (res, imf1, w1) \<Longrightarrow>
     res = Inr (fresh w) \<and> fresh w1 = Suc (fresh w) \<and>
     heap w1 (fresh w) = \<lparr>tree_db = PrefixDB (treeDB imf) p, tree_version = 0, saved = [], pending = []\<rparr> \<and>
     loads w1 = loads w \<and> versions w1 = versions w"
  by (auto simp: newTree_def NewRWTree_def)

lemma rw_Load_effect:
  assumes "rw_Load t v ow w = (res, w1)"
  shows "fresh w1 = fresh w" and "\<And>x. x \<noteq> t \<Longrightarrow> heap w1 x = heap w x"
    and "\<And>x. tree_db (heap w1 x) = tree_db (heap w x)"
    and "unwritable w1 = unwritable w" and "digest w1 = digest w"
    and "loads w1 = loads w @ [(tree_db (heap w t), v, ow)]"
    and "\<not> ow \<Longrightarrow> versions w1 = versions w"
  using assms by (auto simp: rw_Load_def Let_def split: option.splits)

lemma loadOrCreateTree_effect:
  assumes "loadOrCreateTree imf p w = (res, imf1, w1)"
  shows "tree_effect imf p w res imf1 w1"
proof -
  obtain r0 imf0 w0 where nt: "newTree imf p w = (r0, imf0, w0)" by (cases "newTree imf p w") auto
  note e0 = newTree_effect[OF nt] and n0 = newTree_result[OF nt]
  note A = tree_effectD[OF e0]
  show ?thesis
  proof (cases "commitID imf0 p w0")
    case (Inl e)
    with assms nt n0 have "res = Inl (Errorf ''ImmutableForest.loadOrCreateTree():'' e)" "imf1 = imf0" "w1 = w0"
      by (auto simp: loadOrCreateTree_def)
    with e0 show ?thesis by (simp add: tree_effect_def)
  next
    case (Inr c)
    show ?thesis
    proof (cases "Version c = 0")
      case True
      with assms nt n0 Inr have "newTree imf0 p w0 = (res, imf1, w1)"
        by (auto simp: loadOrCreateTree_def)
      from tree_effect_trans[OF e0 newTree_effect[OF this]] show ?thesis .
    next
      case False
      obtain lr w2 where ld: "rw_Load (fresh w) (Version c) (overwriting imf0) w0 = (lr, w2)"
        by (cases "rw_Load (fresh w) (Version c) (overwriting imf0) w0") auto
      note l = rw_Load_effect[OF ld]
      from assms nt n0 Inr False ld have r: "imf1 = imf0" "w1 = w2"
        "res = (case lr of None \<Rightarrow> Inr (fresh w) | Some err \<Rightarrow> Inl (Errorf ''ImmutableForest.loadOrCreateTree(): could not load tree'' err))"
        by (auto simp: loadOrCreateTree_def split: option.splits)
      have f2: "fresh w2 = Suc (fresh w)" using l(1) n0 by simp
      show ?thesis unfolding r(1,2)
      proof (rule tree_effectI)
        show "fresh w \<le> fresh w2" using f2 by simp
        show "heap w2 x = heap w x" if "x < fresh w" for x
          using l(2)[of x] A(2)[OF that] that by simp
        show "tree_db (heap w2 x) = PrefixDB (treeDB imf) p" if "fresh w \<le> x" "x < fresh w2" for x
          using that f2 l(3)[of x] n0 by (simp add: le_less_Suc_eq)
        show "heap w2 x = heap w x" if "fresh w2 \<le> x" for x
          using l(2)[of x] A(15)[of x] that f2 n0 by simp
        show "treeDB imf0 = treeDB imf" by (rule A(4))
        show "commitsTree imf0 = commitsTree imf" by (rule A(5))
        show "overwriting imf0 = overwriting imf" by (rule A(6))
        show "cacheSize imf0 = cacheSize imf" by (rule A(7))
        show "cache_size (treeCache imf0) = cache_size (treeCache imf)" by (rule A(8))
        show "(q, r) \<in> set (items (treeCache imf)) \<or> q = p \<and> fresh w \<le> r \<and> r < fresh w2"
          if "(q, r) \<in> set (items (treeCache imf0))" for q r
          using A(9)[OF that] f2 n0 by simp
        show "(p, ra) \<in> set (items (treeCache imf)) \<or> fresh w \<le> ra \<and> ra < fresh w2"
          if "res = Inr ra" for ra
          using that r(3) f2 by (auto split: option.splits)
        show "unwritable w2 = unwritable w" using l(4) A(11) by simp
        show "digest w2 = digest w" using l(5) A(12) by simp
        show "\<exists>new. loads w2 = loads w @ new \<and> (\<forall>l\<in>set new. snd (snd l) = overwriting imf)"
          using l(6) n0 A(6) by simp
        show "versions w2 = versions w" if "\<not> overwriting imf"
          using l(7) A(6) that n0 by simp
      qed
    qed
  qed
qed

lemma tree_effect_cache:
  assumes "tree_effect (imf\<lparr>treeCache := c\<rparr>) p w res imf1 w1"
    and "set (items c) \<subseteq> set (items (treeCache imf))"
    and "cache_size c = cache_size (treeCache imf)"
  shows "tree_effect imf p w res imf1 w1"
proof (rule tree_effectI)
  note A = tree_effectD[OF assms(1)]
  show "(q, r) \<in> set (items (treeCache imf)) \<or> q = p \<and> fresh w \<le> r \<and> r < fresh w1"
    if "(q, r) \<in> set (items (treeCache imf1))" for q r
    using A(9)[OF that] assms(2) by auto
  show "(p, r) \<in> set (items (treeCache imf)) \<or> fresh w \<le> r \<and> r < fresh w1"
    if "res = Inr r" for r
    using A(10)[OF that] assms(2) by auto
  show "tree_db (heap w1 x) = PrefixDB (treeDB imf) p" if "fresh w \<le> x" "x < fresh w1" for x
    using A(3)[OF that] by simp
  show "versions w1 = versions w" if "\<not> overwriting imf" using A(14) that by simp
  show "\<exists>new. loads w1 = loads w @ new \<and> (\<forall>l\<in>set new. snd (snd l) = overwriting imf)"
    using A(13) by simp
qed (use tree_effectD[OF assms(1)] assms(3) in simp_all)

lemma tree_effect:
  assumes "tree imf p w = (res, imf1, w1)"
  shows "tree_effect imf p w res imf1 w1"
proof -
  obtain g c where g: "lru_Get (treeCache imf) p = (g, c)" by (cases "lru_Get (treeCache imf) p") auto
  note ge = lru_Get_effect[OF g]
  show ?thesis
  proof (cases g)
    case (Some r)
    with assms g have "res = Inr r" "imf1 = imf\<lparr>treeCache := c\<rparr>" "w1 = w"
      by (auto simp: tree_def)
    with ge Some show ?thesis by (auto simp: tree_effect_def)
  next
    case None
    with assms g have "loadOrCreateTree (imf\<lparr>treeCache := c\<rparr>) p w = (res, imf1, w1)"
      by (auto simp: tree_def)
    from tree_effect_cache[OF loadOrCreateTree_effect[OF this] ge(1,2)] show ?thesis .
  qed
qed


section \<open>Well-formed forests\<close>


lemma map_of_apply_write:
  "map_of (apply_write c wr) k =
     (if write_key wr = k then (case wr of WSet k' v \<Rightarrow> Some v | WRemove k' \<Rightarrow> None)
      else map_of c k)"
  by (cases wr) (auto simp: update_conv' delete_conv')

lemma map_of_foldl_other:
  "\<forall>wr\<in>set ws. write_key wr \<noteq> k \<Longrightarrow> map_of (foldl apply_write c ws) k = map_of c k"
  by (induction ws arbitrary: c) (auto simp: map_of_apply_write)

lemma map_of_foldl_set:
  "\<forall>wr\<in>set ws'. write_key wr \<noteq> k \<Longrightarrow>
   map_of (foldl apply_write c (ws @ WSet k v # ws')) k = Some v"
  by (simp add: map_of_foldl_other update_conv')

lemma commit_writes_append:
  "commit_writes muf (ps @ qs) w = commit_writes muf ps w @ commit_writes muf qs w"
  by (simp add: commit_writes_def)

lemma commit_writes_keys:
  "wr \<in> set (commit_writes muf ps w) \<Longrightarrow> write_key wr \<in> set ps"
  by (auto simp: commit_writes_def split: option.splits if_splits)

lemma commit_writes_lookup:
  assumes "distinct ps" and "p \<in> set ps" and "dirty muf p = Some r" and "rw_Updated r w"
  shows "map_of (foldl apply_write c (ws @ commit_writes muf ps w)) p = Some (commit_record w r)"
proof -
  from assms(2) obtain ps1 ps2 where ps: "ps = ps1 @ p # ps2" by (auto dest: split_list)
  with assms(1) have "p \<notin> set ps2" by simp
  then have "\<forall>wr\<in>set (commit_writes muf ps2 w). write_key wr \<noteq> p"
    by (auto dest: commit_writes_keys)
  from map_of_foldl_set[OF this, of c "ws @ commit_writes muf ps1 w" "commit_record w r"]
  show ?thesis using assms(3,4)
    by (simp add: ps commit_writes_append commit_writes_Cons)
qed

lemma rw_Save_success:
  assumes "rw_Save r w = (Inr (hash, version), w1)"
  shows "w1 = w\<lparr>heap := (heap w)(r := saved_tree (heap w r)),
               versions := (versions w)(tree_db (heap w r) :=
                 (versions w (tree_db (heap w r)))(tree_version (heap w r) + 1 \<mapsto> working (heap w r)))\<rparr>"
    and "hash = digest w (working (heap w r))" and "version = tree_version (heap w r) + 1"
    and "\<not> unwritable w (tree_db (heap w r))"
  using assms by (auto simp: rw_Save_def Let_def saved_tree_def split: if_splits)

theorem Save_success:
  assumes "forest_ok muf w" and "Save muf w = (Inr (hash, version), muf1, w1)"
  shows "dirty muf1 = Map.empty \<and> dirtyPrefixes muf1 = [] \<and>
    (\<forall>p\<in>set (dirtyPrefixes muf). \<forall>r. dirty muf p = Some r \<and> rw_Updated r w \<longrightarrow>
        heap w1 r = saved_tree (heap w r) \<and>
        versions w1 (tree_db (heap w r)) (tree_version (heap w r) + 1) = Some (working (heap w r)) \<and>
        marshalCommitID (digest w (working (heap w r))) (tree_version (heap w r) + 1)
          = Inr (Some (commit_record w r)) \<and>
        rw_Get (mcommitsTree muf) p w1 = Some (commit_record w r)) \<and>
    (\<forall>p\<in>set (dirtyPrefixes muf). \<forall>r. dirty muf p = Some r \<and> \<not> rw_Updated r w \<longrightarrow>
        heap w1 r = heap w r) \<and>
    heap w1 (mcommitsTree muf) =
      saved_tree ((heap w (mcommitsTree muf))
        \<lparr>pending := pending (heap w (mcommitsTree muf)) @ commit_writes muf (dirtyPrefixes muf) w\<rparr>) \<and>
    versions w1 (tree_db (heap w (mcommitsTree muf))) version = Some (saved (heap w1 (mcommitsTree muf))) \<and>
    hash = forest_Hash muf w1 \<and> version = forest_Version muf w1 \<and>
    version = forest_Version muf w + 1"
proof -
  let ?ct = "mcommitsTree muf" and ?ps = "dirtyPrefixes muf" and ?tdb = "treeDB (forest muf)"
  from assms(2) obtain w' where sd: "save_dirty muf ?ps w = (None, w')"
    and sv: "rw_Save ?ct w' = (Inr (hash, version), w1)"
    and m1: "muf1 = muf\<lparr>dirty := Map.empty, dirtyPrefixes := []\<rparr>"
    by (auto simp: Save_def split: prod.splits option.splits)
  from assms(1) have d: "distinct ?ps"
    and a: "\<forall>p\<in>set ?ps. \<exists>r. dirty muf p = Some r \<and> tree_db (heap w r) = PrefixDB ?tdb p"
    and c: "\<forall>p. tree_db (heap w ?ct) \<noteq> PrefixDB ?tdb p"
    and dr: "\<And>p r. dirty muf p = Some r \<Longrightarrow> tree_db (heap w r) = PrefixDB ?tdb p"
    by (auto simp: forest_ok_def)
  note S = save_dirty_success[OF sd d a c]
  note V = rw_Save_success[OF sv]
  from S have ct': "heap w' ?ct = (heap w ?ct)\<lparr>pending := pending (heap w ?ct) @ commit_writes muf ?ps w\<rparr>"
    by (intro RWTree.equality) simp_all
  have notct: "r \<noteq> ?ct" if "dirty muf p = Some r" for p r
    using dr[OF that] c by metis
  have h1: "heap w1 ?ct = saved_tree (heap w' ?ct)" by (subst V(1)) simp
  have h2: "heap w1 r = heap w' r" if "r \<noteq> ?ct" for r using that by (subst V(1)) simp
  have v2: "versions w1 d = versions w' d" if "d \<noteq> tree_db (heap w ?ct)" for d
    using that S by (subst V(1)) simp
  have dg: "digest w1 = digest w" using S by (subst V(1)) simp
  have upd: "heap w1 r = saved_tree (heap w r) \<and>
        versions w1 (tree_db (heap w r)) (tree_version (heap w r) + 1) = Some (working (heap w r)) \<and>
        marshalCommitID (digest w (working (heap w r))) (tree_version (heap w r) + 1)
          = Inr (Some (commit_record w r)) \<and>
        rw_Get ?ct p w1 = Some (commit_record w r)"
    if "p \<in> set ?ps" "dirty muf p = Some r" "rw_Updated r w" for p r
  proof (intro conjI)
    from S that have "heap w' r = saved_tree (heap w r)" by simp
    with h2[OF notct[OF that(2)]] show "heap w1 r = saved_tree (heap w r)" by simp
    from S that have "versions w' (PrefixDB ?tdb p) =
        (versions w (PrefixDB ?tdb p))(tree_version (heap w r) + 1 \<mapsto> working (heap w r))" by blast
    moreover have "PrefixDB ?tdb p \<noteq> tree_db (heap w ?ct)" using c by metis
    ultimately show "versions w1 (tree_db (heap w r)) (tree_version (heap w r) + 1) = Some (working (heap w r))"
      using v2 dr[OF that(2)] by simp
    show "marshalCommitID (digest w (working (heap w r))) (tree_version (heap w r) + 1)
          = Inr (Some (commit_record w r))"
      by (simp add: marshalCommitID_eq commit_record_def)
    show "rw_Get ?ct p w1 = Some (commit_record w r)"
      using commit_writes_lookup[OF d that, of "saved (heap w ?ct)" "pending (heap w ?ct)"]
      by (simp add: rw_Get_def h1 ct' saved_tree_def working_def)
  qed
  have nupd: "heap w1 r = heap w r"
    if "p \<in> set ?ps" "dirty muf p = Some r" "\<not> rw_Updated r w" for p r
  proof -
    from S that have "heap w' r = heap w r" by simp
    with h2[OF notct[OF that(2)]] show ?thesis by simp
  qed
  have vct: "versions w1 (tree_db (heap w ?ct)) version = Some (saved (heap w1 ?ct))"
    using S by (subst V(1)) (simp add: V(3) h1 saved_tree_def)
  show ?thesis
    apply (intro conjI)
    subgoal by (simp add: m1)
    subgoal by (simp add: m1)
    subgoal using upd by blast
    subgoal using nupd by blast
    subgoal by (simp add: h1 ct')
    subgoal by (rule vct)
    subgoal using S by (simp add: forest_Hash_def rw_Hash_def h1 dg V(2) saved_tree_def)
    subgoal using S by (simp add: forest_Version_def rw_Version_def h1 V(3) saved_tree_def)
    subgoal using S by (simp add: forest_Version_def rw_Version_def V(3))
    done
qed


lemma DB_neq_PrefixDB: "d \<noteq> PrefixDB d t"
  by (induction d) auto

lemma forest_ok_NewMutableForest:
  assumes "NewMutableForest db cs w = (Inr muf, w1)"
  shows "forest_ok muf w1" and "dirty muf = Map.empty" and "dirtyPrefixes muf = []"
  using assms DB_neq_PrefixDB[of db treePrefix]
  by (auto simp: NewMutableForest_def NewRWTree_def NewImmutableForest_def lru_New_def
      WithOverwriting_def forest_ok_def split: if_splits)

lemma forest_okI:
  assumes "commitsTree (forest muf) = RWTreeReader (mcommitsTree muf)"
    and "mcommitsTree muf < fresh w"
    and "\<And>p. tree_db (heap w (mcommitsTree muf)) \<noteq> PrefixDB (treeDB (forest muf)) p"
    and "set (dirtyPrefixes muf) = dom (dirty muf)"
    and "distinct (dirtyPrefixes muf)"
    and "\<And>p r. dirty muf p = Some r \<Longrightarrow>
        r < fresh w \<and> tree_db (heap w r) = PrefixDB (treeDB (forest muf)) p"
    and "\<And>p r. (p, r) \<in> set (items (treeCache (forest muf))) \<Longrightarrow>
        r < fresh w \<and> tree_db (heap w r) = PrefixDB (treeDB (forest muf)) p"
    and "0 < cache_size (treeCache (forest muf))"
  shows "forest_ok muf w"
  unfolding forest_ok_def using assms by blast

lemma forest_okD:
  assumes "forest_ok muf w"
  shows "commitsTree (forest muf) = RWTreeReader (mcommitsTree muf)"
    and "mcommitsTree muf < fresh w"
    and "\<And>p. tree_db (heap w (mcommitsTree muf)) \<noteq> PrefixDB (treeDB (forest muf)) p"
    and "set (dirtyPrefixes muf) = dom (dirty muf)"
    and "distinct (dirtyPrefixes muf)"
    and "\<And>p r. dirty muf p = Some r \<Longrightarrow>
        r < fresh w \<and> tree_db (heap w r) = PrefixDB (treeDB (forest muf)) p"
    and "\<And>p r. (p, r) \<in> set (items (treeCache (forest muf))) \<Longrightarrow>
        r < fresh w \<and> tree_db (heap w r) = PrefixDB (treeDB (forest muf)) p"
    and "0 < cache_size (treeCache (forest muf))"
  using assms unfolding forest_ok_def by blast+

lemma forest_ok_heap:
  assumes "forest_ok muf w" and "fresh w \<le> fresh w1"
    and "\<And>x. x < fresh w \<Longrightarrow> tree_db (heap w1 x) = tree_db (heap w x)"
  shows "forest_ok muf w1"
proof (rule forest_okI)
  note D = forest_okD[OF assms(1)]
  show "commitsTree (forest muf) = RWTreeReader (mcommitsTree muf)" by (rule D(1))
  show "mcommitsTree muf < fresh w1" using D(2) assms(2) by simp
  show "tree_db (heap w1 (mcommitsTree muf)) \<noteq> PrefixDB (treeDB (forest muf)) p" for p
    using D(3)[of p] assms(3)[OF D(2)] by simp
  show "set (dirtyPrefixes muf) = dom (dirty muf)" by (rule D(4))
  show "distinct (dirtyPrefixes muf)" by (rule D(5))
  show "r < fresh w1 \<and> tree_db (heap w1 r) = PrefixDB (treeDB (forest muf)) p"
    if "dirty muf p = Some r" for p r
    using D(6)[OF that] assms(2) assms(3)[of r] by simp
  show "r < fresh w1 \<and> tree_db (heap w1 r) = PrefixDB (treeDB (forest muf)) p"
    if "(p, r) \<in> set (items (treeCache (forest muf)))" for p r
    using D(7)[OF that] assms(2) assms(3)[of r] by simp
  show "0 < cache_size (treeCache (forest muf))" by (rule D(8))
qed

lemma forest_ok_forget:
  assumes "forest_ok muf w"
  shows "forest_ok (muf\<lparr>dirty := Map.empty, dirtyPrefixes := []\<rparr>) w"
  using assms by (simp add: forest_ok_def)

lemma forest_ok_rw_Set:
  assumes "forest_ok muf w" and "rw_Set r k v w = (res, w1)"
  shows "forest_ok muf w1"
  by (rule forest_ok_heap[OF assms(1)])
     (use assms(2) in \<open>auto simp: rw_Set_def split: option.splits\<close>)

lemma forest_ok_rw_Delete:
  assumes "forest_ok muf w" and "rw_Delete r k w = (res, w1)"
  shows "forest_ok muf w1"
  by (rule forest_ok_heap[OF assms(1)])
     (use assms(2) in \<open>auto simp: rw_Delete_def Let_def\<close>)

lemma rw_Save_frame:
  assumes "rw_Save r w = (res, w1)"
  shows "fresh w1 = fresh w" and "tree_db (heap w1 x) = tree_db (heap w x)"
    and "loads w1 = loads w" and "unwritable w1 = unwritable w" and "digest w1 = digest w"
    and "x \<noteq> r \<Longrightarrow> heap w1 x = heap w x"
    and "d \<noteq> tree_db (heap w r) \<Longrightarrow> versions w1 d = versions w d"
  using assms by (auto simp: rw_Save_def Let_def split: if_splits)

lemma forest_ok_Save:
  assumes "forest_ok muf w" and "Save muf w = (res, muf1, w1)"
  shows "forest_ok muf1 w1"
proof -
  obtain r' w' where sd: "save_dirty muf (dirtyPrefixes muf) w = (r', w')"
    by (cases "save_dirty muf (dirtyPrefixes muf) w")
  from assms(1) have "\<forall>p\<in>set (dirtyPrefixes muf). \<forall>r. dirty muf p = Some r \<longrightarrow>
      tree_db (heap w r) = PrefixDB (treeDB (forest muf)) p"
    and "\<forall>p. tree_db (heap w (mcommitsTree muf)) \<noteq> PrefixDB (treeDB (forest muf)) p"
    by (auto simp: forest_ok_def)
  note F = save_dirty_frame[OF sd this]
  then have ok': "forest_ok muf w'" by (intro forest_ok_heap[OF assms(1)]) simp_all
  show ?thesis
  proof (cases r')
    case (Some e)
    with assms(2) sd have "muf1 = muf" "w1 = w'" by (auto simp: Save_def)
    with ok' show ?thesis by simp
  next
    case None
    obtain r2 w2 where sv: "rw_Save (mcommitsTree muf) w' = (r2, w2)"
      by (cases "rw_Save (mcommitsTree muf) w'")
    with None assms(2) sd have "muf1 = muf\<lparr>dirty := Map.empty, dirtyPrefixes := []\<rparr>" "w1 = w2"
      by (auto simp: Save_def)
    moreover have "forest_ok muf w2"
      by (rule forest_ok_heap[OF ok']) (simp_all add: rw_Save_frame[OF sv])
    ultimately show ?thesis by (simp add: forest_ok_forget)
  qed
qed

lemma forest_ok_Delete:
  assumes "forest_ok muf w" and "Delete muf p w = (res, muf1, w1)"
  shows "forest_ok muf1 w1"
proof -
  obtain rr w' where d: "rw_Delete (mcommitsTree muf) p w = (rr, w')"
    by (cases "rw_Delete (mcommitsTree muf) p w")
  with assms(2) have "muf1 = muf" "w1 = w'"
    by (auto simp: Delete_def split: prod.splits if_splits sum.splits)
  with forest_ok_rw_Delete[OF assms(1) d] show ?thesis by simp
qed

lemma forest_ok_tree:
  assumes "forest_ok muf w" and "tree (forest muf) p w = (res, imf1, w1)"
  shows "forest_ok (muf\<lparr>forest := imf1\<rparr>) w1"
    and "\<And>t. res = Inr t \<Longrightarrow> t < fresh w1 \<and> tree_db (heap w1 t) = PrefixDB (treeDB (forest muf)) p"
    and "treeDB imf1 = treeDB (forest muf)"
proof -
  note E = tree_effect[OF assms(2)]
  from E have fr: "fresh w \<le> fresh w1" and same: "\<And>x. x < fresh w \<Longrightarrow> heap w1 x = heap w x"
    and new: "\<And>x. fresh w \<le> x \<Longrightarrow> x < fresh w1 \<Longrightarrow> tree_db (heap w1 x) = PrefixDB (treeDB (forest muf)) p"
    and tdb: "treeDB imf1 = treeDB (forest muf)" and ct: "commitsTree imf1 = commitsTree (forest muf)"
    and cache: "\<And>q r. (q, r) \<in> set (items (treeCache imf1)) \<Longrightarrow>
         (q, r) \<in> set (items (treeCache (forest muf))) \<or> q = p \<and> fresh w \<le> r \<and> r < fresh w1"
    and rs: "\<And>r. res = Inr r \<Longrightarrow> (p, r) \<in> set (items (treeCache (forest muf))) \<or> fresh w \<le> r \<and> r < fresh w1"
    and cs: "cache_size (treeCache imf1) = cache_size (treeCache (forest muf))"
    unfolding tree_effect_def by blast+
  note D = forest_okD[OF assms(1)]
  show "treeDB imf1 = treeDB (forest muf)" by (rule tdb)
  show "forest_ok (muf\<lparr>forest := imf1\<rparr>) w1"
  proof (rule forest_okI)
    show "commitsTree (forest (muf\<lparr>forest := imf1\<rparr>)) = RWTreeReader (mcommitsTree (muf\<lparr>forest := imf1\<rparr>))"
      using D(1) ct by simp
    show "mcommitsTree (muf\<lparr>forest := imf1\<rparr>) < fresh w1" using D(2) fr by simp
    show "tree_db (heap w1 (mcommitsTree (muf\<lparr>forest := imf1\<rparr>))) \<noteq>
        PrefixDB (treeDB (forest (muf\<lparr>forest := imf1\<rparr>))) q" for q
      using D(3)[of q] same[OF D(2)] tdb by simp
    show "set (dirtyPrefixes (muf\<lparr>forest := imf1\<rparr>)) = dom (dirty (muf\<lparr>forest := imf1\<rparr>))"
      using D(4) by simp
    show "distinct (dirtyPrefixes (muf\<lparr>forest := imf1\<rparr>))" using D(5) by simp
    show "r < fresh w1 \<and> tree_db (heap w1 r) = PrefixDB (treeDB (forest (muf\<lparr>forest := imf1\<rparr>))) q"
      if "dirty (muf\<lparr>forest := imf1\<rparr>) q = Some r" for q r
    proof -
      from that have "dirty muf q = Some r" by simp
      from D(6)[OF this] fr same[of r] tdb show ?thesis by simp
    qed
    show "r < fresh w1 \<and> tree_db (heap w1 r) = PrefixDB (treeDB (forest (muf\<lparr>forest := imf1\<rparr>))) q"
      if "(q, r) \<in> set (items (treeCache (forest (muf\<lparr>forest := imf1\<rparr>))))" for q r
    proof -
      from that have "(q, r) \<in> set (items (treeCache imf1))" by simp
      from cache[OF this] show ?thesis
      proof
        assume "(q, r) \<in> set (items (treeCache (forest muf)))"
        from D(7)[OF this] fr same[of r] tdb show ?thesis by simp
      next
        assume "q = p \<and> fresh w \<le> r \<and> r < fresh w1"
        with new[of r] tdb show ?thesis by simp
      qed
    qed
    show "0 < cache_size (treeCache (forest (muf\<lparr>forest := imf1\<rparr>)))"
      using D(8) cs by simp
  qed
  show "t < fresh w1 \<and> tree_db (heap w1 t) = PrefixDB (treeDB (forest muf)) p" if "res = Inr t" for t
    using rs[OF that]
  proof
    assume "(p, t) \<in> set (items (treeCache (forest muf)))"
    from D(7)[OF this] fr same[of t] show ?thesis by simp
  next
    assume "fresh w \<le> t \<and> t < fresh w1"
    with new[of t] show ?thesis by simp
  qed
qed

lemma forest_ok_Writer:
  assumes "forest_ok muf w" and "Writer muf p w = (res, muf1, w1)"
  shows "forest_ok muf1 w1"
proof (cases "dirty muf p")
  case (Some t)
  with assms show ?thesis by (simp add: Writer_def)
next
  case None
  obtain r' imf1 w' where t: "tree (forest muf) p w = (r', imf1, w')"
    by (cases "tree (forest muf) p w")
  note T = forest_ok_tree[OF assms(1) t]
  show ?thesis
  proof (cases r')
    case (Inl e)
    with None t assms(2) have "muf1 = muf\<lparr>forest := imf1\<rparr>" "w1 = w'" by (auto simp: Writer_def)
    with T(1) show ?thesis by simp
  next
    case (Inr x)
    with None t assms(2) have m: "muf1 = muf\<lparr>forest := imf1, dirty := (dirty muf)(p \<mapsto> x),
        dirtyPrefixes := dirtyPrefixes muf @ [p]\<rparr>" and w: "w1 = w'" by (auto simp: Writer_def)
    note D = forest_okD[OF T(1)]
    from forest_okD(4)[OF assms(1)] None have pn: "p \<notin> set (dirtyPrefixes muf)" by auto
    show ?thesis unfolding m w
    proof (rule forest_okI)
      show "r < fresh w' \<and> tree_db (heap w' r) = PrefixDB (treeDB (forest (muf\<lparr>forest := imf1,
          dirty := (dirty muf)(p \<mapsto> x), dirtyPrefixes := dirtyPrefixes muf @ [p]\<rparr>))) q"
        if "dirty (muf\<lparr>forest := imf1, dirty := (dirty muf)(p \<mapsto> x),
          dirtyPrefixes := dirtyPrefixes muf @ [p]\<rparr>) q = Some r" for q r
        using that D(6)[of q r] T(2)[OF Inr] T(3) by (auto split: if_splits)
    qed (use D pn in \<open>auto\<close>)
  qed
qed



section \<open>Saving\<close>
lemma saveTree_error:
  "saveTree muf p r w = (Some e, w1) \<Longrightarrow>
     e = Errorf ''MutableForest.saveTree() could not save tree'' ErrStoreWrite"
  by (auto simp: saveTree_def rw_Save_def setCommit_def marshalCommitID_eq rw_Set_def Let_def
      split: if_splits)

lemma save_dirty_error:
  assumes "save_dirty muf ps w = (Some e, w')"
    and "\<forall>p\<in>set ps. dirty muf p \<noteq> None"
  shows "e = Errorf ''MutableForest.saveTree() could not save tree'' ErrStoreWrite"
  using assms
proof (induction ps arbitrary: w)
  case Nil
  then show ?case by simp
next
  case (Cons p ps)
  then obtain r where r: "dirty muf p = Some r" by auto
  show ?case
  proof (cases "rw_Updated r w")
    case True
    obtain r1 w1 where st: "saveTree muf p r w = (r1, w1)" by (cases "saveTree muf p r w")
    show ?thesis
    proof (cases r1)
      case None
      with Cons.prems r True st have "save_dirty muf ps w1 = (Some e, w')" by simp
      from Cons.IH[OF this] Cons.prems(2) show ?thesis by simp
    next
      case (Some e')
      with Cons.prems r True st have "e = e'" by simp
      with saveTree_error[of muf p r w e' w1] st Some show ?thesis by simp
    qed
  next
    case False
    with Cons.prems r have "save_dirty muf ps w = (Some e, w')" by simp
    from Cons.IH[OF this] Cons.prems(2) show ?thesis by simp
  qed
qed

theorem Save_namespace_failure:
  assumes "forest_ok muf w" and "dirty muf q = Some rq" and "rw_Updated rq w"
    and "unwritable w (tree_db (heap w rq))"
  shows "\<exists>w1. Save muf w =
           (Inl (Errorf ''MutableForest.saveTree() could not save tree'' ErrStoreWrite), muf, w1) \<and>
         forest_Version muf w1 = forest_Version muf w \<and>
         forest_Hash muf w1 = forest_Hash muf w \<and>
         versions w1 (tree_db (heap w (mcommitsTree muf))) =
           versions w (tree_db (heap w (mcommitsTree muf)))"
proof -
  note D = forest_okD[OF assms(1)]
  have a: "\<forall>p\<in>set (dirtyPrefixes muf). \<exists>r. dirty muf p = Some r \<and>
      tree_db (heap w r) = PrefixDB (treeDB (forest muf)) p"
    using D(4) D(6) by fastforce
  have c: "\<forall>p. tree_db (heap w (mcommitsTree muf)) \<noteq> PrefixDB (treeDB (forest muf)) p"
    using D(3) by simp
  from assms(2) D(4) have q: "q \<in> set (dirtyPrefixes muf)" by auto
  from save_dirty_fails[OF q assms(2,3,4) a c]
  obtain e w1 where sd: "save_dirty muf (dirtyPrefixes muf) w = (Some e, w1)" by blast
  from a have "\<forall>p\<in>set (dirtyPrefixes muf). dirty muf p \<noteq> None" by auto
  from save_dirty_error[OF sd this]
  have e: "e = Errorf ''MutableForest.saveTree() could not save tree'' ErrStoreWrite" .
  from a have a': "\<forall>p\<in>set (dirtyPrefixes muf). \<forall>r. dirty muf p = Some r \<longrightarrow>
      tree_db (heap w r) = PrefixDB (treeDB (forest muf)) p" by auto
  note F = save_dirty_frame[OF sd a' c]
  have "versions w1 (tree_db (heap w (mcommitsTree muf))) = versions w (tree_db (heap w (mcommitsTree muf)))"
    using F c by blast
  with sd e F show ?thesis
    by (simp add: Save_def forest_Version_def forest_Hash_def rw_Version_def rw_Hash_def)
qed


lemma Writer_effect:
  assumes "forest_ok muf w" and "Writer muf p w = (Inr t, muf1, w1)"
  shows "forest_ok muf1 w1" and "dirty muf1 p = Some t"
    and "dirtyPrefixes muf1 = (if p \<in> set (dirtyPrefixes muf) then dirtyPrefixes muf
                               else dirtyPrefixes muf @ [p])"
    and "mcommitsTree muf1 = mcommitsTree muf"
    and "heap w1 (mcommitsTree muf) = heap w (mcommitsTree muf)"
    and "digest w1 = digest w" and "unwritable w1 = unwritable w"
    and "t \<noteq> mcommitsTree muf"
proof -
  show ok1: "forest_ok muf1 w1" by (rule forest_ok_Writer[OF assms])
  note D = forest_okD[OF assms(1)]
  have *: "dirty muf1 p = Some t \<and>
     dirtyPrefixes muf1 = (if p \<in> set (dirtyPrefixes muf) then dirtyPrefixes muf
                               else dirtyPrefixes muf @ [p]) \<and>
     mcommitsTree muf1 = mcommitsTree muf \<and>
     heap w1 (mcommitsTree muf) = heap w (mcommitsTree muf) \<and>
     digest w1 = digest w \<and> unwritable w1 = unwritable w"
  proof (cases "dirty muf p")
    case (Some x)
    with D(4) have "p \<in> set (dirtyPrefixes muf)" by auto
    with Some assms(2) show ?thesis by (simp add: Writer_def)
  next
    case None
    with D(4) have pn: "p \<notin> set (dirtyPrefixes muf)" by auto
    obtain r' imf1 w' where t: "tree (forest muf) p w = (r', imf1, w')"
      by (cases "tree (forest muf) p w")
    from tree_effect[OF t] D(2) have "heap w' (mcommitsTree muf) = heap w (mcommitsTree muf)"
      "digest w' = digest w" "unwritable w' = unwritable w"
      unfolding tree_effect_def by blast+
    with None t assms(2) pn show ?thesis by (auto simp: Writer_def split: sum.splits)
  qed
  then show "dirty muf1 p = Some t"
    and "dirtyPrefixes muf1 = (if p \<in> set (dirtyPrefixes muf) then dirtyPrefixes muf
                               else dirtyPrefixes muf @ [p])"
    and "mcommitsTree muf1 = mcommitsTree muf"
    and "heap w1 (mcommitsTree muf) = heap w (mcommitsTree muf)"
    and "digest w1 = digest w" and "unwritable w1 = unwritable w" by simp_all
  from forest_okD(6)[OF ok1 \<open>dirty muf1 p = Some t\<close>] forest_okD(3)[OF ok1] \<open>mcommitsTree muf1 = mcommitsTree muf\<close>
  show "t \<noteq> mcommitsTree muf" by metis
qed

lemma perform_effect:
  assumes "forest_ok muf w" and "perform a muf w = (None, muf1, w1)"
  shows "forest_ok muf1 w1"
    and "dirtyPrefixes muf1 = (if action_prefix a \<in> set (dirtyPrefixes muf) then dirtyPrefixes muf
                               else dirtyPrefixes muf @ [action_prefix a])"
    and "mcommitsTree muf1 = mcommitsTree muf"
    and "heap w1 (mcommitsTree muf) = heap w (mcommitsTree muf)"
    and "digest w1 = digest w"
proof -
  obtain t muf' w' where wr: "Writer muf (action_prefix a) w = (Inr t, muf', w')"
    and m: "muf1 = muf'"
    and w: "w1 = w' \<or> (\<exists>k v. w1 = w'\<lparr>heap := (heap w')(t := (heap w' t)\<lparr>pending := pending (heap w' t) @ [WSet k v]\<rparr>)\<rparr>)
              \<or> (\<exists>k. w1 = w'\<lparr>heap := (heap w')(t := (heap w' t)\<lparr>pending := pending (heap w' t) @ [WRemove k]\<rparr>)\<rparr>)"
    using assms(2)
    by (cases a) (auto simp: rw_Set_def rw_Delete_def Let_def split: prod.splits sum.splits)
  note W = Writer_effect[OF assms(1) wr]
  have fr: "fresh w' \<le> fresh w1" and db: "\<And>x. tree_db (heap w1 x) = tree_db (heap w' x)"
    using w by auto
  show "forest_ok muf1 w1" unfolding m by (rule forest_ok_heap[OF W(1) fr]) (simp add: db)
  show "dirtyPrefixes muf1 = (if action_prefix a \<in> set (dirtyPrefixes muf) then dirtyPrefixes muf
                               else dirtyPrefixes muf @ [action_prefix a])"
    unfolding m by (rule W(3))
  show "mcommitsTree muf1 = mcommitsTree muf" unfolding m by (rule W(4))
  show "heap w1 (mcommitsTree muf) = heap w (mcommitsTree muf)" using w W(5) W(8) by auto
  show "digest w1 = digest w" using w W(6) by auto
qed

lemma foldl_touch:
  "foldl touch acc ps = acc @ filter (\<lambda>p. p \<notin> set acc) (rev (remdups (rev ps)))"
proof (induction ps rule: rev_induct)
  case Nil
  then show ?case by simp
next
  case (snoc x xs)
  have s: "set (filter (\<lambda>p. p \<notin> set acc) (rev (remdups (rev xs)))) = set xs - set acc" by auto
  show ?case using snoc by (auto simp: touch_def s)
qed

lemma perform_all_effect:
  assumes "forest_ok muf w" and "perform_all acts muf w = (None, muf1, w1)"
  shows "forest_ok muf1 w1"
    and "dirtyPrefixes muf1 = foldl touch (dirtyPrefixes muf) (map action_prefix acts)"
    and "mcommitsTree muf1 = mcommitsTree muf"
    and "heap w1 (mcommitsTree muf) = heap w (mcommitsTree muf)"
    and "digest w1 = digest w"
  using assms
proof (induction acts arbitrary: muf w)
  case Nil
  { case 1 then show ?case by simp }
  { case 2 then show ?case by simp }
  { case 3 then show ?case by simp }
  { case 4 then show ?case by simp }
  { case 5 then show ?case by simp }
next
  case (Cons a acts)
  { fix muf w
    assume ok: "forest_ok muf w" and pa: "perform_all (a # acts) muf w = (None, muf1, w1)"
    then obtain muf' w' where p: "perform a muf w = (None, muf', w')"
      and r: "perform_all acts muf' w' = (None, muf1, w1)"
      by (auto split: prod.splits option.splits)
    note P = perform_effect[OF ok p]
    note I = Cons.IH[OF P(1) r]
    have "forest_ok muf1 w1 \<and>
      dirtyPrefixes muf1 = foldl touch (dirtyPrefixes muf) (map action_prefix (a # acts)) \<and>
      mcommitsTree muf1 = mcommitsTree muf \<and>
      heap w1 (mcommitsTree muf) = heap w (mcommitsTree muf) \<and> digest w1 = digest w"
      using I P(1,3,4,5) P(2)[folded touch_def] by simp
  } note step = this
  { case 1 from step[OF 1] show ?case by simp }
  { case 2 from step[OF 2] show ?case by simp }
  { case 3 from step[OF 3] show ?case by simp }
  { case 4 from step[OF 4] show ?case by simp }
  { case 5 from step[OF 5] show ?case by simp }
qed

lemma Save_env:
  assumes "forest_ok muf w" and "Save muf w = (res, muf1, w1)"
  shows "digest w1 = digest w" and "unwritable w1 = unwritable w" and "loads w1 = loads w"
    and "fresh w1 = fresh w"
proof -
  obtain r' w' where sd: "save_dirty muf (dirtyPrefixes muf) w = (r', w')"
    by (cases "save_dirty muf (dirtyPrefixes muf) w")
  note D = forest_okD[OF assms(1)]
  have "\<forall>p\<in>set (dirtyPrefixes muf). \<forall>r. dirty muf p = Some r \<longrightarrow>
      tree_db (heap w r) = PrefixDB (treeDB (forest muf)) p"
    and "\<forall>p. tree_db (heap w (mcommitsTree muf)) \<noteq> PrefixDB (treeDB (forest muf)) p"
    using D(3) D(6) by auto
  note F = save_dirty_frame[OF sd this]
  obtain r2 w2 where sv: "rw_Save (mcommitsTree muf) w' = (r2, w2)"
    by (cases "rw_Save (mcommitsTree muf) w'")
  note R = rw_Save_frame[OF sv]
  from assms(2) sd sv have "w1 = w' \<or> w1 = w2" by (auto simp: Save_def split: option.splits)
  with F R show "digest w1 = digest w" and "unwritable w1 = unwritable w" and "loads w1 = loads w"
    and "fresh w1 = fresh w" by auto
qed

theorem Save_order_deterministic:
  assumes "forest_ok muf w" and "dirtyPrefixes muf = []"
    and "perform_all acts muf w = (None, muf1, w1)"
    and "Save muf1 w1 = (Inr (hash, version), muf2, w2)"
  shows "dirtyPrefixes muf1 = rev (remdups (rev (map action_prefix acts))) \<and>
         saved (heap w2 (mcommitsTree muf)) =
           foldl apply_write (working (heap w (mcommitsTree muf)))
             (commit_writes muf1 (dirtyPrefixes muf1) w1) \<and>
         hash = digest w (saved (heap w2 (mcommitsTree muf))) \<and>
         version = forest_Version muf w + 1 \<and>
         (\<forall>muf1' w1' hash' version' muf2' w2'.
            perform_all acts muf w = (None, muf1', w1') \<and>
            Save muf1' w1' = (Inr (hash', version'), muf2', w2') \<longrightarrow>
            hash' = hash \<and> version' = version)"
proof -
  note P = perform_all_effect[OF assms(1,3)]
  note S = Save_success[OF P(1) assms(4)]
  from S have ct: "heap w2 (mcommitsTree muf1) =
      saved_tree ((heap w1 (mcommitsTree muf1))
        \<lparr>pending := pending (heap w1 (mcommitsTree muf1)) @ commit_writes muf1 (dirtyPrefixes muf1) w1\<rparr>)"
    and h: "hash = forest_Hash muf1 w2" and v: "version = forest_Version muf1 w1 + 1" by blast+
  have dg: "digest w2 = digest w"
    using Save_env(1)[OF P(1) assms(4)] P(5) by simp
  show ?thesis
    apply (intro conjI)
    subgoal using P(2) assms(2) by (simp add: foldl_touch)
    subgoal using ct P(3,4) by (simp add: saved_tree_def working_def)
    subgoal using h dg P(3) by (simp add: forest_Hash_def rw_Hash_def)
    subgoal using v P(3,4) by (simp add: forest_Version_def rw_Version_def)
    subgoal using assms(3,4) by auto
    done
qed



section \<open>Writer, Delete, GetImmutable and Reader\<close>


theorem Writer_same_instance:
  "(dirty muf p = Some t \<longrightarrow> Writer muf p w = (Inr t, muf, w)) \<and>
   (Writer muf p w = (Inr t, muf1, w1) \<longrightarrow>
      dirty muf1 p = Some t \<and>
      Writer muf1 p w1 = (Inr t, muf1, w1) \<and>
      (\<forall>q x. dirty muf q = Some x \<longrightarrow> dirty muf1 q = Some x) \<and>
      dirtyPrefixes muf1 =
        (if dirty muf p = None then dirtyPrefixes muf @ [p] else dirtyPrefixes muf) \<and>
      (set (dirtyPrefixes muf) = dom (dirty muf) \<and> distinct (dirtyPrefixes muf) \<longrightarrow>
         set (dirtyPrefixes muf1) = dom (dirty muf1) \<and> distinct (dirtyPrefixes muf1) \<and>
         count_list (dirtyPrefixes muf1) p = 1))"
proof -
  have d: "count_list xs p = 1" if "distinct xs" "p \<in> set xs" for xs :: "bytes list"
    using that by (induction xs) auto
  have n: "count_list xs p = 0" if "p \<notin> set xs" for xs :: "bytes list"
    using that by (induction xs) auto
  show ?thesis
  proof (cases "dirty muf p")
    case None
    have "count_list (dirtyPrefixes muf) p = 0" if "set (dirtyPrefixes muf) = dom (dirty muf)"
      using that None by (intro n) auto
    with None show ?thesis
      by (auto simp: Writer_def split: prod.splits sum.splits)
  next
    case (Some x)
    have "count_list (dirtyPrefixes muf) p = 1"
      if "set (dirtyPrefixes muf) = dom (dirty muf)" "distinct (dirtyPrefixes muf)"
      using that Some by (intro d) auto
    with Some show ?thesis
      by (auto simp: Writer_def split: prod.splits sum.splits)
  qed
qed

lemma unmarshal_marshalled:
  assumes "marshalCommitID h v = Inr (Some bs)" and "length h < 2 ^ 63"
  shows "unmarshalCommitID bs = Inr \<lparr>Version = v, Hash = h\<rparr>"
  using decode_encode_CommitID[OF assms(2), of v] assms(1)
  by (simp add: marshalCommitID_eq unmarshalCommitID_def UnmarshalBinary_def)

theorem Delete_returns_stored_commit:
  assumes "Delete muf p w = (res, muf1, w1)"
  shows "muf1 = muf \<and>
    map_of (working (heap w1 (mcommitsTree muf))) p = None \<and>
    (\<forall>q. q \<noteq> p \<longrightarrow> map_of (working (heap w1 (mcommitsTree muf))) q
                      = map_of (working (heap w (mcommitsTree muf))) q) \<and>
    (map_of (working (heap w (mcommitsTree muf))) p = None \<longrightarrow> res = Inr None) \<and>
    (\<forall>bs h v. map_of (working (heap w (mcommitsTree muf))) p = Some bs \<and>
        marshalCommitID h v = Inr (Some bs) \<and> length h < 2 ^ 63 \<longrightarrow>
        res = Inr (Some \<lparr>Version = v, Hash = h\<rparr>)) \<and>
    (\<forall>bs. map_of (working (heap w (mcommitsTree muf))) p = Some bs \<longrightarrow>
        res = (case unmarshalCommitID bs of Inl e \<Rightarrow> Inl e | Inr c \<Rightarrow> Inr (Some c)))"
proof -
  let ?ct = "mcommitsTree muf"
  let ?old = "map_of (working (heap w ?ct)) p"
  have w1: "w1 = w\<lparr>heap := (heap w)(?ct := (heap w ?ct)\<lparr>pending := pending (heap w ?ct) @ [WRemove p]\<rparr>)\<rparr>"
    and m: "muf1 = muf"
    and r: "res = (case ?old of None \<Rightarrow> Inr None
                  | Some bs \<Rightarrow> (case unmarshalCommitID bs of Inl e \<Rightarrow> Inl e | Inr c \<Rightarrow> Inr (Some c)))"
    using assms
    by (auto simp: Delete_def rw_Delete_def Let_def bytes_of_def split: if_splits sum.splits)
  have wk: "working (heap w1 ?ct) = AList.delete p (working (heap w ?ct))"
    by (simp add: w1 working_def)
  show ?thesis
    apply (intro conjI allI impI)
    subgoal by (rule m)
    subgoal by (simp add: wk delete_conv')
    subgoal by (simp add: wk delete_conv')
    subgoal using r by simp
    subgoal for bs h v using r unmarshal_marshalled[of h v bs] by simp
    subgoal using r by simp
    done
qed


lemma read_all_effect:
  assumes "read_all imf ps w = (rs, imf1, w1)"
    and "\<not> overwriting imf" and "n \<le> fresh w"
    and "\<forall>q r. (q, r) \<in> set (items (treeCache imf)) \<longrightarrow> n \<le> r"
  shows "versions w1 = versions w \<and>
         (\<exists>new. loads w1 = loads w @ new \<and> (\<forall>l\<in>set new. \<not> snd (snd l))) \<and>
         (\<forall>t. Inr t \<in> set rs \<longrightarrow> n \<le> t) \<and>
         (\<forall>x. x < n \<longrightarrow> heap w1 x = heap w x) \<and>
         \<not> overwriting imf1"
  using assms
proof (induction ps arbitrary: imf w rs)
  case Nil
  then show ?case by simp
next
  case (Cons p ps)
  obtain res imf' w' where rd: "tree imf p w = (res, imf', w')" by (cases "tree imf p w")
  obtain rs' where ra: "read_all imf' ps w' = (rs', imf1, w1)" and rs: "rs = res # rs'"
    using Cons.prems(1) rd by (auto simp: Reader_def split: prod.splits)
  note E = tree_effectD[OF tree_effect[OF rd]]
  from E(6) Cons.prems(2) have ow: "\<not> overwriting imf'" by simp
  from E(1) Cons.prems(3) have fr: "n \<le> fresh w'" by simp
  have ca: "\<forall>q r. (q, r) \<in> set (items (treeCache imf')) \<longrightarrow> n \<le> r"
  proof (intro allI impI)
    fix q r assume "(q, r) \<in> set (items (treeCache imf'))"
    from E(9)[OF this] Cons.prems(3,4) show "n \<le> r" by auto
  qed
  note I = Cons.IH[OF ra ow fr ca]
  from E(14) Cons.prems(2) have v: "versions w' = versions w" by simp
  from E(13) Cons.prems(2) obtain new where l: "loads w' = loads w @ new" "\<forall>l\<in>set new. \<not> snd (snd l)"
    by auto
  from I obtain new' where l': "loads w1 = loads w' @ new'" "\<forall>l\<in>set new'. \<not> snd (snd l)"
    by auto
  have r: "n \<le> t" if "res = Inr t" for t
    using E(10)[OF that] Cons.prems(3,4) by auto
  have h: "heap w' x = heap w x" if "x < n" for x
    using E(2)[of x] that Cons.prems(3) by simp
  show ?case
    apply (intro conjI)
    subgoal using I v by simp
    subgoal using l l' by (intro exI[of _ "new @ new'"]) auto
    subgoal using I r rs by auto
    subgoal using I h by simp
    subgoal using I by simp
    done
qed

theorem GetImmutable_view:
  "(NewMutableForest db cs w0 = (Inr muf0, w0') \<longrightarrow> overwriting (forest muf0)) \<and>
   (forest_ok muf w \<and> GetImmutable muf version w = Inr imf \<and>
    read_all imf ps w = (rs, imf1, w1) \<longrightarrow>
      \<not> overwriting imf \<and> items (treeCache imf) = [] \<and>
      treeDB imf = treeDB (forest muf) \<and> cacheSize imf = cacheSize (forest muf) \<and>
      versions w1 = versions w \<and>
      (\<exists>new. loads w1 = loads w @ new \<and> (\<forall>l\<in>set new. \<not> snd (snd l))) \<and>
      (\<forall>t. Inr t \<in> set rs \<longrightarrow>
          fresh w \<le> t \<and> t \<noteq> mcommitsTree muf \<and> t \<notin> ran (dirty muf) \<and>
          t \<notin> snd ` set (items (treeCache (forest muf)))) \<and>
      (\<forall>x. x < fresh w \<longrightarrow> heap w1 x = heap w x))"
proof (rule conjI; rule impI)
  assume "NewMutableForest db cs w0 = (Inr muf0, w0')"
  then show "overwriting (forest muf0)"
    by (auto simp: NewMutableForest_def NewRWTree_def NewImmutableForest_def WithOverwriting_def
        split: sum.splits)
next
  assume a: "forest_ok muf w \<and> GetImmutable muf version w = Inr imf \<and>
    read_all imf ps w = (rs, imf1, w1)"
  then have g: "\<not> overwriting imf" "items (treeCache imf) = []"
    "treeDB imf = treeDB (forest muf)" "cacheSize imf = cacheSize (forest muf)"
    by (auto simp: GetImmutable_def NewImmutableForest_def lru_New_def split: sum.splits if_splits)
  from a have ra: "read_all imf ps w = (rs, imf1, w1)" and ok: "forest_ok muf w" by simp_all
  note D = forest_okD[OF ok]
  have "\<forall>q r. (q, r) \<in> set (items (treeCache imf)) \<longrightarrow> fresh w \<le> r" using g(2) by simp
  note R = read_all_effect[OF ra g(1) le_refl this]
  have live: "t \<noteq> mcommitsTree muf \<and> t \<notin> ran (dirty muf) \<and>
          t \<notin> snd ` set (items (treeCache (forest muf)))" if "fresh w \<le> t" for t
  proof (intro conjI notI)
    assume "t = mcommitsTree muf" with D(2) that show False by simp
  next
    assume "t \<in> ran (dirty muf)"
    then obtain q where "dirty muf q = Some t" by (auto simp: ran_def)
    from D(6)[OF this] that show False by simp
  next
    assume "t \<in> snd ` set (items (treeCache (forest muf)))"
    then obtain q where "(q, t) \<in> set (items (treeCache (forest muf)))" by auto
    from D(7)[OF this] that show False by simp
  qed
  show "\<not> overwriting imf \<and> items (treeCache imf) = [] \<and>
      treeDB imf = treeDB (forest muf) \<and> cacheSize imf = cacheSize (forest muf) \<and>
      versions w1 = versions w \<and>
      (\<exists>new. loads w1 = loads w @ new \<and> (\<forall>l\<in>set new. \<not> snd (snd l))) \<and>
      (\<forall>t. Inr t \<in> set rs \<longrightarrow>
          fresh w \<le> t \<and> t \<noteq> mcommitsTree muf \<and> t \<notin> ran (dirty muf) \<and>
          t \<notin> snd ` set (items (treeCache (forest muf)))) \<and>
      (\<forall>x. x < fresh w \<longrightarrow> heap w1 x = heap w x)"
    using g R live by simp
qed

theorem Reader_unknown_prefix:
  assumes "reader_Get (commitsTree imf) p w = None"
    and "\<forall>r. map_of (items (treeCache imf)) p = Some r \<longrightarrow>
           tree_version (heap w r) = 0 \<and> saved (heap w r) = []"
  shows "\<exists>t imf1 w1. Reader imf p w = (Inr t, imf1, w1) \<and>
           rw_Version t w1 = 0 \<and> saved (heap w1 t) = [] \<and> (\<forall>k. rw_Get t k w1 = None) \<and>
           loads w1 = loads w \<and> versions w1 = versions w"
proof (cases "map_of (items (treeCache imf)) p")
  case (Some r)
  with assms(2) show ?thesis
    by (simp add: Reader_def tree_def lru_Get_def rw_Version_def rw_Get_def)
next
  case None
  have "reader_Get (commitsTree imf) p
          (w\<lparr>heap := (heap w)(fresh w := \<lparr>tree_db = d, tree_version = 0, saved = [], pending = []\<rparr>),
             fresh := Suc (fresh w)\<rparr>) = None" for d
    using assms(1) by (auto simp: reader_Get_def rw_Get_def split: KVCallbackIterableReader.splits)
  with None show ?thesis
    by (simp add: Reader_def tree_def lru_Get_def loadOrCreateTree_def newTree_def NewRWTree_def
        commitID_def new_CommitID_def rw_Version_def rw_Get_def)
qed



section \<open>Buffered writes\<close>


lemma newTree_heap_update:
  assumes "t < fresh w"
  shows "newTree imf p (w\<lparr>heap := (heap w)(t := x)\<rparr>) =
         (case newTree imf p w of (res, imf1, w1) \<Rightarrow> (res, imf1, w1\<lparr>heap := (heap w1)(t := x)\<rparr>))"
  using assms by (auto simp: newTree_def NewRWTree_def fun_upd_twist)

lemma commitID_heap_update:
  assumes "commitsTree imf \<noteq> RWTreeReader t"
  shows "commitID imf p (w\<lparr>heap := (heap w)(t := x)\<rparr>) = commitID imf p w"
  using assms by (auto simp: commitID_def reader_Get_def rw_Get_def split: KVCallbackIterableReader.splits)

lemma rw_Load_heap_update:
  assumes "t \<noteq> r"
  shows "rw_Load r v ow (w\<lparr>heap := (heap w)(t := x)\<rparr>) =
         (case rw_Load r v ow w of (res, w1) \<Rightarrow> (res, w1\<lparr>heap := (heap w1)(t := x)\<rparr>))"
  using assms by (auto simp: rw_Load_def Let_def fun_upd_twist split: option.splits cong: if_cong)

lemma loadOrCreateTree_heap_update:
  assumes "t < fresh w" and "commitsTree imf \<noteq> RWTreeReader t"
  shows "loadOrCreateTree imf p (w\<lparr>heap := (heap w)(t := x)\<rparr>) =
         (case loadOrCreateTree imf p w of
            (res, imf1, w1) \<Rightarrow> (res, imf1, w1\<lparr>heap := (heap w1)(t := x)\<rparr>))"
proof -
  obtain r0 imf0 w0 where nt: "newTree imf p w = (r0, imf0, w0)" by (cases "newTree imf p w") auto
  note n0 = newTree_result[OF nt] and e0 = tree_effectD[OF newTree_effect[OF nt]]
  have c: "commitsTree imf0 \<noteq> RWTreeReader t" using e0(5) assms(2) by simp
  have t0: "t < fresh w0" "t \<noteq> fresh w" using assms(1) n0 by auto
  show ?thesis
    using n0 t0
    by (simp add: loadOrCreateTree_def newTree_heap_update[OF assms(1)] nt
        commitID_heap_update[OF c] newTree_heap_update[OF t0(1)] rw_Load_heap_update
        split: sum.splits prod.splits option.splits)
qed

lemma tree_heap_update:
  assumes "t < fresh w" and "commitsTree imf \<noteq> RWTreeReader t"
  shows "tree imf p (w\<lparr>heap := (heap w)(t := x)\<rparr>) =
         (case tree imf p w of (res, imf1, w1) \<Rightarrow> (res, imf1, w1\<lparr>heap := (heap w1)(t := x)\<rparr>))"
  using assms
  by (simp add: tree_def loadOrCreateTree_heap_update split: prod.splits option.splits)


lemma lru_Add_front:
  "0 < cache_size c \<Longrightarrow> map_of (items (lru_Add c k v)) k = Some v"
  by (cases "AList.delete k (items c)") (auto simp: lru_Add_def Let_def)

lemma tree_caches:
  assumes "tree imf p w = (Inr t, imf1, w1)" and "0 < cache_size (treeCache imf)"
  shows "map_of (items (treeCache imf1)) p = Some t"
proof (cases "map_of (items (treeCache imf)) p")
  case (Some r)
  with assms show ?thesis by (auto simp: tree_def lru_Get_def)
next
  case None
  with assms(1) have l: "loadOrCreateTree imf p w = (Inr t, imf1, w1)"
    by (simp add: tree_def lru_Get_def)
  let ?c1 = "lru_Add (treeCache imf) p (fresh w)"
  have c1: "0 < cache_size ?c1" using assms(2) by (simp add: lru_Add_def Let_def)
  from l show ?thesis
    using lru_Add_front[OF assms(2), of p "fresh w"] lru_Add_front[OF c1, of p "Suc (fresh w)"]
    by (auto simp: loadOrCreateTree_def newTree_def NewRWTree_def
        split: sum.splits if_splits prod.splits option.splits)
qed

theorem write_buffering:
  assumes "forest_ok muf w" and "Writer muf p w = (Inr t, muf1, w1)"
    and "rw_Set t k (Some v) w1 = (res, w2)"
  shows "res = None \<and>
    Writer muf1 p w2 = (Inr t, muf1, w2) \<and>
    map_of (working (heap w2 t)) k = Some v \<and>
    rw_Get t k w2 = rw_Get t k w1 \<and>
    (dirty muf p = None \<longrightarrow> fst (Reader (forest muf1) p w2) = Inr t) \<and>
    (\<forall>imf q. commitsTree imf \<noteq> RWTreeReader t \<and> t \<notin> snd ` set (items (treeCache imf)) \<longrightarrow>
        read_key imf q k w2 = read_key imf q k w1)"
proof -
  have w2: "w2 = w1\<lparr>heap := (heap w1)(t := (heap w1 t)\<lparr>pending := pending (heap w1 t) @ [WSet k v]\<rparr>)\<rparr>"
    and res: "res = None"
    using assms(3) by (auto simp: rw_Set_def)
  note W = Writer_effect[OF assms(1,2)]
  have tf: "t < fresh w1" using forest_okD(6)[OF W(1) W(2)] by simp
  have a: "Writer muf1 p w2 = (Inr t, muf1, w2)" using W(2) by (simp add: Writer_def)
  have b: "map_of (working (heap w2 t)) k = Some v"
    by (simp add: w2 working_def update_conv')
  have c: "rw_Get t k w2 = rw_Get t k w1" by (simp add: w2 rw_Get_def)
  have d: "fst (Reader (forest muf1) p w2) = Inr t" if "dirty muf p = None"
  proof -
    obtain r' imf1 w' where tr: "tree (forest muf) p w = (r', imf1, w')"
      by (cases "tree (forest muf) p w")
    with that assms(2) have "r' = Inr t" "forest muf1 = imf1"
      by (auto simp: Writer_def split: sum.splits)
    with tree_caches[of "forest muf" p w t imf1 w'] tr forest_okD(8)[OF assms(1)]
    have "map_of (items (treeCache (forest muf1))) p = Some t" by simp
    then show ?thesis by (simp add: Reader_def tree_def lru_Get_def)
  qed
  have e: "read_key imf q k w2 = read_key imf q k w1"
    if "commitsTree imf \<noteq> RWTreeReader t" "t \<notin> snd ` set (items (treeCache imf))" for imf q
  proof -
    obtain r' imf' w' where tr: "tree imf q w1 = (r', imf', w')" by (cases "tree imf q w1")
    note E = tree_effectD[OF tree_effect[OF tr]]
    have "r \<noteq> t" if "r' = Inr r" for r
      using E(10)[OF that] \<open>t \<notin> snd ` set (items (treeCache imf))\<close> tf by force
    then show ?thesis
      unfolding w2
      by (auto simp: read_key_def Reader_def tree_heap_update[OF tf that(1)] tr rw_Get_def
          split: sum.splits)
  qed
  from res a b c d e show ?thesis by blast
qed


end
